theory Spec2Isabelle
  imports Complex_Main "HOL-Library.Multiset" "HOL-Library.Product_Lexorder" "HOL-Library.Word"
begin

section \<open>The top-K reducer of the image classifier\<close>

text \<open>
  \<^verbatim>\<open>using FloatIndexPair = std::pair<float, size_t>\<close>.  A score is a \<^verbatim>\<open>float\<close>: a
  value of a linear order (the finite floats and the infinities), or NaN.  The
  comparisons \<^verbatim>\<open><\<close> and \<^verbatim>\<open><=\<close> are false as soon as one side is NaN.  A
  default-constructed score is \<open>0\<close>.  The functions below use of a score only its
  \<^verbatim>\<open><\<close> and its default value, and are stated for any type that has them.
\<close>

datatype 'a float = NaN | Val 'a

instantiation float :: (ord) ord
begin

definition less_float :: "'a float \<Rightarrow> 'a float \<Rightarrow> bool" where
  "less_float x y =
     (case x of NaN \<Rightarrow> False | Val a \<Rightarrow> (case y of NaN \<Rightarrow> False | Val b \<Rightarrow> a < b))"

definition less_eq_float :: "'a float \<Rightarrow> 'a float \<Rightarrow> bool" where
  "less_eq_float x y =
     (case x of NaN \<Rightarrow> False | Val a \<Rightarrow> (case y of NaN \<Rightarrow> False | Val b \<Rightarrow> a \<le> b))"

instance ..

end

instantiation float :: (zero) zero
begin

definition zero_float :: "'a float" where
  "zero_float = Val 0"

instance ..

end

text \<open>Indices into the score vector are natural numbers.\<close>

type_synonym 'a FloatIndexPair = "'a \<times> nat"

text \<open>
  \<^verbatim>\<open>operator<\<close> of \<^verbatim>\<open>std::pair\<close>, as the language standards before C++20 define it:
  \<^verbatim>\<open>x.first < y.first || (!(y.first < x.first) && x.second < y.second)\<close>; and
  \<^verbatim>\<open>std::greater<FloatIndexPair>\<close>, which is \<^verbatim>\<open>x > y\<close>, that is \<^verbatim>\<open>y < x\<close>.
\<close>

definition pair_less :: "'a::ord FloatIndexPair \<Rightarrow> 'a FloatIndexPair \<Rightarrow> bool" where
  "pair_less x y \<longleftrightarrow> fst x < fst y \<or> (\<not> fst y < fst x \<and> snd x < snd y)"

definition greater_pair :: "'a::ord FloatIndexPair \<Rightarrow> 'a FloatIndexPair \<Rightarrow> bool" where
  "greater_pair x y \<longleftrightarrow> pair_less y x"

text \<open>
  \<^verbatim>\<open>std::priority_queue<FloatIndexPair, std::vector<FloatIndexPair>,
  std::greater<FloatIndexPair>>\<close> is a container adaptor of the C++ standard
  library: a vector kept as a binary heap by \<^verbatim>\<open>std::push_heap\<close> and
  \<^verbatim>\<open>std::pop_heap\<close>.  With NaN among the scores the comparison is not a strict weak
  order, and which element \<^verbatim>\<open>top()\<close> then yields depends on the heap algorithms, so
  these are modelled as the GNU C++ library has them (\<^verbatim>\<open>bits/stl_heap.h\<close>), on the
  vector as a list.

  \<^verbatim>\<open>std::__push_heap\<close>: the hole moves up while its parent compares before the value.
\<close>

function push_heap_impl :: "('e \<Rightarrow> 'e \<Rightarrow> bool) \<Rightarrow> 'e list \<Rightarrow> nat \<Rightarrow> nat \<Rightarrow> 'e \<Rightarrow> 'e list" where
  "push_heap_impl cmp first holeIndex topIndex val =
     (let parent = (holeIndex - 1) div 2
      in if holeIndex > topIndex \<and> cmp (first ! parent) val
         then push_heap_impl cmp (first[holeIndex := first ! parent]) parent topIndex val
         else first[holeIndex := val])"
  by pat_completeness auto
termination
  by (relation "measure (\<lambda>(cmp, first, holeIndex, topIndex, val). holeIndex)") auto

declare push_heap_impl.simps [simp del]

text \<open>\<^verbatim>\<open>std::push_heap(first, last, comp)\<close>: the last element is the value pushed.\<close>

definition push_heap :: "('e \<Rightarrow> 'e \<Rightarrow> bool) \<Rightarrow> 'e list \<Rightarrow> 'e list" where
  "push_heap cmp c = push_heap_impl cmp c (length c - 1) 0 (c ! (length c - 1))"

text \<open>
  The \<^verbatim>\<open>while\<close> loop of \<^verbatim>\<open>std::__adjust_heap\<close>: the hole (which is
  \<^verbatim>\<open>secondChild\<close> at the head of the loop) moves down to the child that does not
  compare before the other one.  It returns the vector and the hole.
\<close>

function adjust_heap_loop :: "('e \<Rightarrow> 'e \<Rightarrow> bool) \<Rightarrow> 'e list \<Rightarrow> nat \<Rightarrow> nat \<Rightarrow> 'e list \<times> nat" where
  "adjust_heap_loop cmp first secondChild len =
     (if secondChild < (len - 1) div 2
      then (let child = 2 * (secondChild + 1);
                child' = (if cmp (first ! child) (first ! (child - 1)) then child - 1 else child)
            in adjust_heap_loop cmp (first[secondChild := first ! child']) child' len)
      else (first, secondChild))"
  by pat_completeness auto
termination
  by (relation "measure (\<lambda>(cmp, first, secondChild, len). len - secondChild)") auto

declare adjust_heap_loop.simps [simp del]

text \<open>
  \<^verbatim>\<open>std::__adjust_heap\<close>: after the loop, a hole whose only child is the last
  element of an even-length heap moves down once more
  (\<^verbatim>\<open>(len & 1) == 0 && secondChild == (len - 2) / 2\<close>, in signed arithmetic, so never
  for \<open>len = 0\<close>); then the value is pushed up from the hole.
\<close>

definition adjust_heap_impl :: "('e \<Rightarrow> 'e \<Rightarrow> bool) \<Rightarrow> 'e list \<Rightarrow> nat \<Rightarrow> nat \<Rightarrow> 'e \<Rightarrow> 'e list" where
  "adjust_heap_impl cmp first holeIndex len val =
     (case adjust_heap_loop cmp first holeIndex len of
        (first1, secondChild) \<Rightarrow>
          if len mod 2 = 0 \<and> 2 \<le> len \<and> secondChild = (len - 2) div 2
          then push_heap_impl cmp (first1[secondChild := first1 ! (2 * (secondChild + 1) - 1)])
                 (2 * (secondChild + 1) - 1) holeIndex val
          else push_heap_impl cmp first1 secondChild holeIndex val)"

text \<open>
  \<^verbatim>\<open>std::pop_heap(first, last, comp)\<close>: with more than one element, the last one is
  the value, the first one is stored in its place, and the heap of the others is
  adjusted from the root.
\<close>

definition pop_heap :: "('e \<Rightarrow> 'e \<Rightarrow> bool) \<Rightarrow> 'e list \<Rightarrow> 'e list" where
  "pop_heap cmp c =
     (if length c > 1
      then adjust_heap_impl cmp (c[length c - 1 := c ! 0]) 0 (length c - 1) (c ! (length c - 1))
      else c)"

text \<open>
  The members of the queue: \<^verbatim>\<open>push\<close> is \<^verbatim>\<open>c.push_back(x); std::push_heap(...)\<close>,
  \<^verbatim>\<open>top\<close> is \<^verbatim>\<open>c.front()\<close>, \<^verbatim>\<open>pop\<close> is \<^verbatim>\<open>std::pop_heap(...); c.pop_back()\<close>.
  Both \<^verbatim>\<open>top\<close> and \<^verbatim>\<open>pop\<close> on an empty queue are undefined behaviour, which is
  the value \<open>None\<close>.
\<close>

type_synonym 'a topKQueue = "'a FloatIndexPair list"

definition pq_push :: "'a::ord FloatIndexPair \<Rightarrow> 'a topKQueue \<Rightarrow> 'a topKQueue" where
  "pq_push x c = push_heap greater_pair (c @ [x])"

definition pq_top :: "'a topKQueue \<Rightarrow> 'a FloatIndexPair option" where
  "pq_top c = (if c = [] then None else Some (c ! 0))"

definition pq_pop :: "'a::ord topKQueue \<Rightarrow> 'a topKQueue option" where
  "pq_pop c = (if c = [] then None else Some (butlast (pop_heap greater_pair c)))"

text \<open>The body of the scanning loop of \<^verbatim>\<open>getTopKPairs\<close>, for the element at index \<open>i\<close>.\<close>

definition topKStep ::
  "nat \<Rightarrow> 'a::ord \<Rightarrow> nat \<Rightarrow> 'a topKQueue \<Rightarrow> 'a topKQueue option" where
  "topKStep topKCount currProbability i topKQueue =
     (if length topKQueue < topKCount
      then Some (pq_push (currProbability, i) topKQueue)
      else case pq_top topKQueue of
             None \<Rightarrow> None
           | Some t \<Rightarrow>
               if fst t < currProbability
               then (case pq_pop topKQueue of
                       None \<Rightarrow> None
                     | Some q' \<Rightarrow> Some (pq_push (currProbability, i) q'))
               else Some topKQueue)"

text \<open>\<^verbatim>\<open>for (size_t i = 0, e = H.size(); i < e; i++)\<close>, started at any index.\<close>

function topKLoop ::
  "nat \<Rightarrow> 'a::ord list \<Rightarrow> nat \<Rightarrow> 'a topKQueue \<Rightarrow> 'a topKQueue option" where
  "topKLoop topKCount H i topKQueue =
     (if i < length H
      then (case topKStep topKCount (H ! i) i topKQueue of
              None \<Rightarrow> None
            | Some q' \<Rightarrow> topKLoop topKCount H (Suc i) q')
      else Some topKQueue)"
  by pat_completeness auto
termination
  by (relation "measure (\<lambda>(K, H, i, q). length H - i)") auto

declare topKLoop.simps [simp del]

text \<open>
  \<^verbatim>\<open>for (size_t i = 0; i < topKCount; i++) { res[topKCount - i - 1] = topKQueue.top();
  topKQueue.pop(); }\<close>
\<close>

function drainQueue ::
  "nat \<Rightarrow> nat \<Rightarrow> 'a::ord topKQueue \<Rightarrow> 'a FloatIndexPair list \<Rightarrow> 'a FloatIndexPair list option" where
  "drainQueue topKCount i topKQueue res =
     (if i < topKCount
      then (case pq_top topKQueue of
              None \<Rightarrow> None
            | Some t \<Rightarrow>
                (case pq_pop topKQueue of
                   None \<Rightarrow> None
                 | Some q' \<Rightarrow> drainQueue topKCount (Suc i) q' (res[topKCount - i - 1 := t])))
      else Some res)"
  by pat_completeness auto
termination
  by (relation "measure (\<lambda>(K, i, q, res). K - i)") auto

declare drainQueue.simps [simp del]

text \<open>
  \<^verbatim>\<open>getTopKPairs(H)\<close> with the global option \<^verbatim>\<open>topKCount\<close> as a parameter.  The
  handle \<^verbatim>\<open>H\<close> of a one-dimensional tensor is the list of its elements.  The
  assertion \<^verbatim>\<open>topKCount <= H.size()\<close> fails, or (compiled out) the drain reads an
  empty queue, when more pairs are asked for than there are scores: \<open>None\<close>.
\<close>

definition getTopKPairs ::
  "nat \<Rightarrow> 'a::{ord,zero} list \<Rightarrow> 'a FloatIndexPair list option" where
  "getTopKPairs topKCount H =
     (if \<not> topKCount \<le> length H then None
      else case topKLoop topKCount H 0 [] of
             None \<Rightarrow> None
           | Some topKQueue \<Rightarrow> drainQueue topKCount 0 topKQueue (replicate topKCount (0, 0)))"


section \<open>Printing and checking the top-K pairs\<close>

text \<open>
  What is written to \<^verbatim>\<open>llvm::outs()\<close> and \<^verbatim>\<open>llvm::errs()\<close> is a list of the items
  streamed with \<^verbatim>\<open><<\<close>: text, a number (printed in decimal by the stream), or a
  probability (printed with \<^verbatim>\<open>"%0.4f"\<close>).
\<close>

datatype 'a token = Str string | Num nat | Prob 'a

text \<open>
  \<^verbatim>\<open>size_t\<close> is taken to be 64 bits wide and \<^verbatim>\<open>unsigned\<close> 32 bits wide.  In
  \<^verbatim>\<open>p.second - labelOffset\<close> the offset is converted to \<^verbatim>\<open>size_t\<close> and the
  subtraction wraps around; in the comparison with \<^verbatim>\<open>expectedCategoryIndex\<close> the
  index is converted to \<^verbatim>\<open>size_t\<close> too.
\<close>

type_synonym size_t = "64 word"
type_synonym unsigned = "32 word"

fun printTopKPairsFrom :: "unsigned \<Rightarrow> nat \<Rightarrow> ('a \<times> size_t) list \<Rightarrow> 'a token list" where
  "printTopKPairsFrom labelOffset i [] = []"
| "printTopKPairsFrom labelOffset i (p # ps) =
     (let label = snd p - ucast labelOffset in
      (if i \<noteq> 0 then [Str (replicate 5 (CHR 0x09))] else []) @
      [Str (CHR 0x09 # ''Label-K''), Num (i + 1), Str '': '', Num (unat label),
       Str '' (probability: '', Prob (fst p), Str ('')'' @ [CHR 0x0A])] @
      printTopKPairsFrom labelOffset (Suc i) ps)"

definition printTopKPairs :: "unsigned \<Rightarrow> ('a \<times> size_t) list \<Rightarrow> 'a token list" where
  "printTopKPairs labelOffset topKPairs = printTopKPairsFrom labelOffset 0 topKPairs"

text \<open>The loop of \<^verbatim>\<open>checkExpectedLabel\<close>: is there a pair with the expected label?\<close>

fun findMatchingLabel :: "unsigned \<Rightarrow> ('a \<times> size_t) list \<Rightarrow> unsigned \<Rightarrow> bool" where
  "findMatchingLabel labelOffset [] expectedCategoryIndex = False"
| "findMatchingLabel labelOffset (p # ps) expectedCategoryIndex =
     (if snd p - ucast labelOffset = ucast expectedCategoryIndex then True
      else findMatchingLabel labelOffset ps expectedCategoryIndex)"

text \<open>\<^verbatim>\<open>checkExpectedLabel\<close> returns its \<^verbatim>\<open>int\<close> result and what it printed.\<close>

definition checkExpectedLabel ::
  "unsigned \<Rightarrow> ('a \<times> size_t) list \<Rightarrow> string \<Rightarrow> unsigned \<Rightarrow> int \<times> 'a token list" where
  "checkExpectedLabel labelOffset topKPairs fileName expectedCategoryIndex =
     (if findMatchingLabel labelOffset topKPairs expectedCategoryIndex then (0, [])
      else (1, [Str '' File: '', Str fileName,
                Str ('' doesn'' @ [CHR 0x27] @ ''t match index: ''),
                Num (unat expectedCategoryIndex),
                Str '' in the top '', Num (length topKPairs),
                Str ('' pairs'' @ [CHR 0x0A])]))"

section \<open>Reading the next batch of filenames\<close>

text \<open>
  \<^verbatim>\<open>getNextImageFilenames\<close> reads one line of standard input and splits it at
  white space, as \<^verbatim>\<open>iss >> filename\<close> does.  Standard input is the list of its
  remaining lines; at end of input \<^verbatim>\<open>getline\<close> leaves the line empty.  The
  function returns its result, the new contents of \<^verbatim>\<open>*filenames\<close> and the rest
  of the input.
\<close>

definition isspace :: "char \<Rightarrow> bool" where
  "isspace c \<longleftrightarrow> c \<in> set [CHR '' '', CHR 0x09, CHR 0x0A, CHR 0x0B, CHR 0x0C, CHR 0x0D]"

fun splitWhitespace :: "string \<Rightarrow> string \<Rightarrow> string list" where
  "splitWhitespace filename [] = (if filename = [] then [] else [filename])"
| "splitWhitespace filename (c # cs) =
     (if isspace c
      then (if filename = [] then splitWhitespace [] cs else filename # splitWhitespace [] cs)
      else splitWhitespace (filename @ [c]) cs)"

definition getNextImageFilenames :: "string list \<Rightarrow> bool \<times> string list \<times> string list" where
  "getNextImageFilenames input =
     (let filenamesRaw = (case input of [] \<Rightarrow> [] | l # rest \<Rightarrow> l);
          filenames = splitWhitespace [] filenamesRaw
      in (filenames \<noteq> [], filenames, (case input of [] \<Rightarrow> [] | l # rest \<Rightarrow> rest)))"

text \<open>
  The copying loop of \<^verbatim>\<open>getNextMiniBatch\<close>,
  \<^verbatim>\<open>for (size_t index = miniBatchIndex; index < endIndex; index++)\<close>.  Reading
  \<^verbatim>\<open>totalImageList[index]\<close> beyond the end of the vector is undefined behaviour:
  \<open>None\<close>.  Sizes and indices are natural numbers: they are bounded by the length
  of a vector, so the additions do not wrap.
\<close>

function copyMiniBatch :: "string list \<Rightarrow> string list \<Rightarrow> nat \<Rightarrow> nat \<Rightarrow> string list option" where
  "copyMiniBatch imageList totalImageList index endIndex =
     (if index < endIndex
      then (if index < length totalImageList
            then copyMiniBatch (imageList @ [totalImageList ! index]) totalImageList
                   (Suc index) endIndex
            else None)
      else Some imageList)"
  by pat_completeness auto
termination
  by (relation "measure (\<lambda>(imageList, totalImageList, index, endIndex). endIndex - index)") auto

declare copyMiniBatch.simps [simp del]

text \<open>
  \<^verbatim>\<open>getNextMiniBatch\<close> returns its result with the new values of the reference
  parameters \<^verbatim>\<open>imageList\<close> and \<^verbatim>\<open>miniBatchIndex\<close>.
\<close>

definition getNextMiniBatch ::
  "string list \<Rightarrow> string list \<Rightarrow> nat \<Rightarrow> nat \<Rightarrow> nat \<Rightarrow> (bool \<times> string list \<times> nat) option" where
  "getNextMiniBatch imageList totalImageList miniBatchIndex miniBatchSize miniBatchLimit =
     (if miniBatchIndex \<ge> miniBatchLimit then Some (False, imageList, miniBatchIndex)
      else case copyMiniBatch [] totalImageList miniBatchIndex (miniBatchIndex + miniBatchSize) of
             None \<Rightarrow> None
           | Some imageList' \<Rightarrow> Some (True, imageList', miniBatchIndex + miniBatchSize))"

section \<open>Reading the image list file\<close>

text \<open>
  The state of the \<^verbatim>\<open>std::ifstream\<close> of \<^verbatim>\<open>parseInputImageList\<close>: the characters not
  yet read and the state bits \<^verbatim>\<open>eofbit\<close> and \<^verbatim>\<open>failbit\<close>.  Opening a file that
  cannot be opened (\<open>None\<close>) sets \<^verbatim>\<open>failbit\<close>, not \<^verbatim>\<open>eofbit\<close>.
\<close>

record ifstream =
  unread :: string
  eofbit :: bool
  failbit :: bool

definition openFile :: "string option \<Rightarrow> ifstream" where
  "openFile file =
     (case file of
        None \<Rightarrow> \<lparr>unread = [], eofbit = False, failbit = True\<rparr>
      | Some chars \<Rightarrow> \<lparr>unread = chars, eofbit = False, failbit = False\<rparr>)"

text \<open>
  \<^verbatim>\<open>getline(inFile, img)\<close> on a fresh, empty \<^verbatim>\<open>img\<close>.  On a stream that is not good
  nothing is read and \<^verbatim>\<open>failbit\<close> is set.  Otherwise the characters up to the next
  newline are the line and the newline is dropped; when the end of the file comes
  first, \<^verbatim>\<open>eofbit\<close> is set, and \<^verbatim>\<open>failbit\<close> too if no character was read.
\<close>

definition getline :: "ifstream \<Rightarrow> ifstream \<times> string" where
  "getline inFile =
     (if eofbit inFile \<or> failbit inFile then (inFile\<lparr>failbit := True\<rparr>, [])
      else
        (let img = takeWhile (\<lambda>c. c \<noteq> CHR 0x0A) (unread inFile)
         in case dropWhile (\<lambda>c. c \<noteq> CHR 0x0A) (unread inFile) of
              [] \<Rightarrow> (inFile\<lparr>unread := [], eofbit := True, failbit := (img = [])\<rparr>, img)
            | newline # rest \<Rightarrow> (inFile\<lparr>unread := rest\<rparr>, img)))"

text \<open>
  \<^verbatim>\<open>while (!inFile.eof()) { std::string img; getline(inFile, img);
  if (!img.empty()) inputImageFilenames.push_back(img); }\<close>  The loop need not end:
  not returning is the value \<open>None\<close>.
\<close>

partial_function (option) readImageList :: "ifstream \<Rightarrow> string list \<Rightarrow> string list option" where
  "readImageList inFile filenames =
     (if \<not> \<not> eofbit inFile
      then Some filenames
      else readImageList (fst (getline inFile))
             (if snd (getline inFile) \<noteq> []
              then filenames @ [snd (getline inFile)] else filenames))"

declare readImageList.simps [code]

section \<open>The options and the environment of the driver\<close>

text \<open>
  The command-line options as \<^verbatim>\<open>parseCommandLine\<close> leaves them, with what the
  driver takes from outside: the results of \<^verbatim>\<open>emittingBundle()\<close> and
  \<^verbatim>\<open>profilingGraph()\<close> and the model path (declared in \<^verbatim>\<open>Loader.h\<close>), the
  contents of the image list file (\<open>None\<close> when it cannot be opened), the lines of
  standard input, the softmax transform (it needs \<^verbatim>\<open>std::exp\<close> on floats and stays
  abstract), the dimensions of the tensor that \<^verbatim>\<open>loadImagesAndPreprocess\<close> yields for
  a batch of images, and the output tensor that inference yields for it.
\<close>

record 'a options =
  inputImageFilenames :: "string list"
  inputImageListFile :: string
  miniBatch :: nat
  miniBatchThreads :: nat
  labelOffset :: unsigned
  computeSoftmax :: bool
  topKCount :: nat
  expectedMatchingLabels :: "unsigned list"
  emittingBundle :: bool
  profilingGraph :: bool
  modelOptPath :: string
  listFile :: "string option"
  stdinLines :: "string list"
  applySoftmax :: "'a list \<Rightarrow> 'a list"
  imageDims :: "string list \<Rightarrow> nat list"
  inferenceOutput :: "string list \<Rightarrow> 'a list list"

text \<open>
  The per-image loop of \<^verbatim>\<open>processAndPrintResultsImpl\<close>.  The output tensor
  \<^verbatim>\<open>SMT\<close> is the list of its rows, one score vector per image.  A failed assertion and
  an out-of-range read are \<open>None\<close>.
\<close>

function processResultsLoop ::
  "'a::{ord,zero} options \<Rightarrow> 'a list list \<Rightarrow> string list \<Rightarrow> nat \<Rightarrow> int \<Rightarrow>
   'a token list \<Rightarrow> (int \<times> 'a token list) option" where
  "processResultsLoop opts SMT imageList i retVal out =
     (if i < length imageList
      then
        (let fileName = imageList ! i;
             out1 = out @ [Str '' File: '', Str fileName];
             SH = (if computeSoftmax opts then applySoftmax opts (SMT ! i) else SMT ! i)
         in case getTopKPairs (topKCount opts) SH of
              None \<Rightarrow> None
            | Some pairs \<Rightarrow>
                (let topKPairs = map (\<lambda>p. (fst p, (of_nat (snd p) :: size_t))) pairs;
                     out2 = out1 @ printTopKPairs (labelOffset opts) topKPairs
                 in if expectedMatchingLabels opts \<noteq> []
                    then
                      (if i < length (expectedMatchingLabels opts)
                       then
                         (let r = checkExpectedLabel (labelOffset opts) topKPairs fileName
                                    (expectedMatchingLabels opts ! i)
                          in processResultsLoop opts SMT imageList (Suc i)
                               (retVal + fst r) (out2 @ snd r))
                       else None)
                    else processResultsLoop opts SMT imageList (Suc i) retVal out2))
      else Some (retVal, out))"
  by pat_completeness auto
termination
  by (relation "measure (\<lambda>(opts, SMT, imageList, i, retVal, out). length imageList - i)") auto

declare processResultsLoop.simps [simp del]

definition processAndPrintResultsImpl ::
  "'a::{ord,zero} options \<Rightarrow> 'a list list \<Rightarrow> string list \<Rightarrow>
   (int \<times> 'a token list) option" where
  "processAndPrintResultsImpl opts SMT imageList =
     (if length SMT \<noteq> length imageList then None
      else processResultsLoop opts SMT imageList 0 0 [])"


text \<open>
  \<^verbatim>\<open>processAndPrintResults\<close> dispatches on the element type of the tensor; both
  instances of the template are the same function of the scores.
\<close>

definition processAndPrintResults ::
  "'a::{ord,zero} options \<Rightarrow> 'a list list \<Rightarrow> string list \<Rightarrow>
   (int \<times> 'a token list) option" where
  "processAndPrintResults opts SMT imageList = processAndPrintResultsImpl opts SMT imageList"

section \<open>One worker: processImageRange\<close>

text \<open>
  What a run does is recorded as a list of events: output on \<^verbatim>\<open>llvm::outs()\<close> and
  \<^verbatim>\<open>llvm::errs()\<close>, and the calls into the external collaborators (image
  loading, building and compiling the model, inference, serialising the
  quantization profile) and into standard input (\<^verbatim>\<open>getline(std::cin, ...)\<close>).  Image
  decoding is not part of the model: the collaborators are taken to succeed.
\<close>

datatype 'a event =
    Outs "'a token list"
  | Errs "'a token list"
  | LoadImagesAndPreprocess "string list"
  | BuildAndCompile
  | RunInference "string list"
  | GenerateAndSerializeQuantizationInfos
  | GetlineStdin

text \<open>
  The local variables of the lambda \<^verbatim>\<open>processImageRange\<close>, with the shared
  \<^verbatim>\<open>numErrors\<close>, the remaining standard input and the events so far.  Of the
  placeholder \<^verbatim>\<open>inputImagePH\<close> the state keeps the dimensions (\<open>None\<close> for the null
  pointer).  The flag \<open>aborted\<close> is set when a \<^verbatim>\<open>GLOW_ASSERT\<close> of the lambda fails.
\<close>

record 'a worker =
  isFirstRun :: bool
  inputImagePH :: "nat list option"
  miniBatchIndex :: nat
  inputImageBatchFilenames :: "string list"
  numErrors :: int
  remainingInput :: "string list"
  events :: "'a event list"
  aborted :: bool

text \<open>
  The condition of the \<^verbatim>\<open>while\<close> loop, with its side effects and the short-circuit
  evaluation of \<^verbatim>\<open>||\<close> and \<^verbatim>\<open>&&\<close>.  Its first disjunct is
  \<^verbatim>\<open>streamInputFilenamesMode && getNextImageFilenames(&inputImageBatchFilenames)\<close>,
  its second \<^verbatim>\<open>miniBatch && getNextMiniBatch(...)\<close>, its third \<^verbatim>\<open>isFirstRun\<close>.
\<close>

definition streamCondition :: "bool \<Rightarrow> 'a worker \<Rightarrow> bool \<times> 'a worker" where
  "streamCondition streaming w =
     (if streaming
      then (case getNextImageFilenames (remainingInput w) of
              (b, filenames, rest) \<Rightarrow>
                (b, w\<lparr>inputImageBatchFilenames := filenames, remainingInput := rest,
                       events := events w @
                         [Outs [Str ''Enter image filenames to classify: ''],
                          GetlineStdin]\<rparr>))
      else (False, w))"

definition miniBatchCondition ::
  "'a options \<Rightarrow> nat \<Rightarrow> 'a worker \<Rightarrow> (bool \<times> 'a worker) option" where
  "miniBatchCondition opts endIndex w =
     (if miniBatch opts \<noteq> 0
      then (case getNextMiniBatch (inputImageBatchFilenames w) (inputImageFilenames opts)
                   (miniBatchIndex w) (miniBatch opts) endIndex of
              None \<Rightarrow> None
            | Some (b, imageList, index) \<Rightarrow>
                Some (b, w\<lparr>inputImageBatchFilenames := imageList, miniBatchIndex := index\<rparr>))
      else Some (False, w))"

definition loopCondition ::
  "'a options \<Rightarrow> bool \<Rightarrow> nat \<Rightarrow> 'a worker \<Rightarrow> (bool \<times> 'a worker) option" where
  "loopCondition opts streaming endIndex w =
     (case streamCondition streaming w of
        (b1, w1) \<Rightarrow>
          if b1 then Some (True, w1)
          else (case miniBatchCondition opts endIndex w1 of
                  None \<Rightarrow> None
                | Some (b2, w2) \<Rightarrow>
                    if b2 then Some (True, w2) else Some (isFirstRun w2, w2)))"

text \<open>
  The body of the loop.  The first component of the result tells whether control left
  the lambda from inside the loop: by the \<^verbatim>\<open>return\<close> after the bundle was saved, or
  because \<^verbatim>\<open>GLOW_ASSERT(inputImagePH->dims() == inputImageData.dims())\<close> failed, which
  aborts the process.  The placeholder is built for the tensor of the first batch, so
  its dimensions are those of that tensor.
\<close>

definition loopBody ::
  "'a::{ord,zero} options \<Rightarrow> 'a worker \<Rightarrow> (bool \<times> 'a worker) option" where
  "loopBody opts w =
     (let batch = inputImageBatchFilenames w;
          inputImageData = imageDims opts batch;
          w1 = w\<lparr>events := events w @ [LoadImagesAndPreprocess batch]\<rparr>
      in if isFirstRun w1 \<and> emittingBundle opts
         then Some (True, w1\<lparr>isFirstRun := False, events := events w1 @ [BuildAndCompile]\<rparr>)
         else
           (let w2 = (if isFirstRun w1
                      then w1\<lparr>isFirstRun := False, inputImagePH := Some inputImageData,
                              events := events w1 @ [BuildAndCompile]\<rparr>
                      else w1)
            in if inputImagePH w2 \<noteq> Some inputImageData
               then Some (True, w2\<lparr>aborted := True\<rparr>)
               else
                 (let w3 = w2\<lparr>events := events w2 @ [RunInference batch]\<rparr>
                  in case processAndPrintResults opts (inferenceOutput opts batch) batch of
                       None \<Rightarrow> None
                     | Some (r, out) \<Rightarrow>
                         Some (False, w3\<lparr>numErrors := numErrors w3 + r,
                                          events := events w3 @ [Outs out]\<rparr>))))"

text \<open>How far a worker is from leaving its loop.\<close>

definition workerMeasure :: "nat \<Rightarrow> 'a worker \<Rightarrow> nat" where
  "workerMeasure endIndex w =
     length (remainingInput w) + (endIndex - miniBatchIndex w) + (if isFirstRun w then 1 else 0)"

text \<open>Each pass through the loop brings the worker closer to leaving it.\<close>

lemma getNextImageFilenames_input:
  assumes "getNextImageFilenames input = (b, filenames, rest)"
  shows "length rest \<le> length input \<and> (b \<longrightarrow> length rest < length input)"
proof (cases input)
  case Nil
  with assms show ?thesis by (simp add: getNextImageFilenames_def)
next
  case (Cons l ls)
  with assms have "rest = ls" by (simp add: getNextImageFilenames_def Let_def)
  with Cons show ?thesis by simp
qed

lemma getNextMiniBatch_index:
  assumes "getNextMiniBatch imageList totalImageList i n limit = Some (b, imageList', i')"
  shows "(b \<longrightarrow> i < limit \<and> i' = i + n) \<and> (\<not> b \<longrightarrow> i' = i)"
  using assms by (auto simp: getNextMiniBatch_def split: if_splits option.splits)

lemma streamCondition_measure:
  assumes "streamCondition streaming w = (b, w1)"
  shows "isFirstRun w1 = isFirstRun w \<and> miniBatchIndex w1 = miniBatchIndex w \<and>
         length (remainingInput w1) \<le> length (remainingInput w) \<and>
         (b \<longrightarrow> length (remainingInput w1) < length (remainingInput w))"
proof (cases streaming)
  case False
  with assms show ?thesis by (simp add: streamCondition_def)
next
  case True
  obtain b' filenames rest where g: "getNextImageFilenames (remainingInput w) = (b', filenames, rest)"
    by (cases "getNextImageFilenames (remainingInput w)") auto
  from getNextImageFilenames_input [OF g] assms True g show ?thesis
    by (auto simp: streamCondition_def)
qed

lemma miniBatchCondition_measure:
  assumes "miniBatchCondition opts endIndex w = Some (b, w1)"
  shows "isFirstRun w1 = isFirstRun w \<and> remainingInput w1 = remainingInput w \<and>
         miniBatchIndex w \<le> miniBatchIndex w1 \<and>
         (b \<longrightarrow> miniBatchIndex w < endIndex \<and> miniBatchIndex w < miniBatchIndex w1)"
proof (cases "miniBatch opts \<noteq> 0")
  case False
  with assms show ?thesis by (simp add: miniBatchCondition_def)
next
  case True
  with assms obtain imageList index where
    m: "getNextMiniBatch (inputImageBatchFilenames w) (inputImageFilenames opts)
          (miniBatchIndex w) (miniBatch opts) endIndex = Some (b, imageList, index)"
    and w1: "w1 = w\<lparr>inputImageBatchFilenames := imageList, miniBatchIndex := index\<rparr>"
    by (auto simp: miniBatchCondition_def split: option.splits)
  from getNextMiniBatch_index [OF m] True show ?thesis unfolding w1 by (cases b) auto
qed

lemma loopCondition_measure:
  assumes "loopCondition opts streaming endIndex w = Some (True, w1)"
  shows "workerMeasure endIndex w1 \<le> workerMeasure endIndex w \<and>
         (isFirstRun w1 \<or> workerMeasure endIndex w1 < workerMeasure endIndex w) \<and>
         (isFirstRun w1 \<longrightarrow> isFirstRun w)"
proof -
  obtain b1 wa where s: "streamCondition streaming w = (b1, wa)"
    by (cases "streamCondition streaming w") auto
  note sm = streamCondition_measure [OF s]
  show ?thesis
  proof (cases b1)
    case True
    with assms s have "w1 = wa" by (simp add: loopCondition_def)
    with sm True show ?thesis by (simp add: workerMeasure_def)
  next
    case False
    with assms s have h: "(case miniBatchCondition opts endIndex wa of
                  None \<Rightarrow> None
                | Some (b2, w2) \<Rightarrow>
                    if b2 then Some (True, w2) else Some (isFirstRun w2, w2)) = Some (True, w1)"
      by (simp add: loopCondition_def)
    then obtain x where x: "miniBatchCondition opts endIndex wa = Some x"
      by (cases "miniBatchCondition opts endIndex wa") simp_all
    obtain b2 w2 where x2: "x = (b2, w2)" by (cases x)
    from h x x2 have e: "(if b2 then Some (True, w2) else Some (isFirstRun w2, w2)) = Some (True, w1)"
      by simp
    then have "w2 = w1" by (cases b2) simp_all
    with x x2 have m: "miniBatchCondition opts endIndex wa = Some (b2, w1)" by simp
    from e \<open>w2 = w1\<close> have c: "b2 \<or> isFirstRun w1" by (cases b2) simp_all
    note mm = miniBatchCondition_measure [OF m]
    show ?thesis
    proof (cases b2)
      case True
      with mm sm show ?thesis by (auto simp: workerMeasure_def)
    next
      case False
      with c mm sm show ?thesis by (auto simp: workerMeasure_def)
    qed
  qed
qed

lemma loopBody_measure:
  assumes "loopBody opts w1 = Some (False, w2)"
  shows "\<not> isFirstRun w2 \<and> miniBatchIndex w2 = miniBatchIndex w1 \<and>
         remainingInput w2 = remainingInput w1"
  using assms
  by (auto simp: loopBody_def Let_def split: if_splits prod.splits option.splits)

function processImageLoop ::
  "'a::{ord,zero} options \<Rightarrow> bool \<Rightarrow> nat \<Rightarrow> 'a worker \<Rightarrow> (bool \<times> 'a worker) option" where
  "processImageLoop opts streaming endIndex w =
     (case loopCondition opts streaming endIndex w of
        None \<Rightarrow> None
      | Some (continue, w1) \<Rightarrow>
          if continue
          then (case loopBody opts w1 of
                  None \<Rightarrow> None
                | Some (returned, w2) \<Rightarrow>
                    if returned then Some (True, w2)
                    else processImageLoop opts streaming endIndex w2)
          else Some (False, w1))"
  by pat_completeness auto
termination
proof (relation "measure (\<lambda>(opts, streaming, endIndex, w). workerMeasure endIndex w)")
  show "wf (measure (\<lambda>(opts, streaming, endIndex, w). workerMeasure endIndex w))"
    by simp
next
  fix opts :: "'a options" and streaming endIndex w x2 continue w1 x2a returned w2
  assume c: "loopCondition opts streaming endIndex w = Some x2" "(continue, w1) = x2" "continue"
    and b: "loopBody opts w1 = Some x2a" "(returned, w2) = x2a" "\<not> returned"
  from c have c': "loopCondition opts streaming endIndex w = Some (True, w1)" by auto
  from b have b': "loopBody opts w1 = Some (False, w2)" by auto
  from loopCondition_measure [OF c'] loopBody_measure [OF b']
  have "workerMeasure endIndex w2 < workerMeasure endIndex w"
    by (auto simp: workerMeasure_def split: if_splits)
  then show "((opts, streaming, endIndex, w2), (opts, streaming, endIndex, w))
      \<in> measure (\<lambda>(opts, streaming, endIndex, w). workerMeasure endIndex w)"
    by simp
qed


declare processImageLoop.simps [simp del]

text \<open>
  The lambda \<^verbatim>\<open>processImageRange\<close>, run on the standard input that is left.  It
  yields the final state of the worker, \<open>aborted\<close> if a \<^verbatim>\<open>GLOW_ASSERT\<close> failed; \<open>None\<close>
  is undefined behaviour or a failed \<^verbatim>\<open>assert\<close> inside.
\<close>

definition processImageRange ::
  "'a::{ord,zero} options \<Rightarrow> bool \<Rightarrow> string list \<Rightarrow> nat \<Rightarrow> nat \<Rightarrow> 'a worker option" where
  "processImageRange opts streaming input startIndex endIndex =
     (let w = \<lparr>isFirstRun = True, inputImagePH = None, miniBatchIndex = startIndex,
                inputImageBatchFilenames =
                  (if \<not> 0 < miniBatch opts \<and> \<not> streaming then inputImageFilenames opts else []),
                numErrors = 0, remainingInput = input, events = [], aborted = False\<rparr>
      in case processImageLoop opts streaming endIndex w of
           None \<Rightarrow> None
         | Some (returned, w') \<Rightarrow>
             if returned then Some w'
             else if profilingGraph opts
             then Some (w'\<lparr>events := events w' @ [GenerateAndSerializeQuantizationInfos]\<rparr>)
             else Some w')"

section \<open>The driver: main\<close>

text \<open>
  \<^verbatim>\<open>parseInputImageList\<close> opens the list file and appends what the loop reads to
  \<^verbatim>\<open>inputImageFilenames\<close>; it does not return (\<open>None\<close>) when the loop does not end.
\<close>

definition parseInputImageList :: "'a options \<Rightarrow> 'a options option" where
  "parseInputImageList opts =
     (case readImageList (openFile (listFile opts)) (inputImageFilenames opts) of
        None \<Rightarrow> None
      | Some filenames \<Rightarrow> Some (opts\<lparr>inputImageFilenames := filenames\<rparr>))"

text \<open>
  \<^verbatim>\<open>if (!inputImageListFile.empty()) { ...; parseInputImageList(inputImageListFile); }\<close>
  without its assertion, which \<open>main\<close> below checks first.
\<close>

definition collectInputImages :: "'a options \<Rightarrow> 'a options option" where
  "collectInputImages opts =
     (if inputImageListFile opts \<noteq> [] then parseInputImageList opts else Some opts)"

text \<open>\<^verbatim>\<open>inputImageFilenames.size() == 1 && inputImageFilenames.front() == "-"\<close>\<close>

definition streamInputFilenamesMode :: "string list \<Rightarrow> bool" where
  "streamInputFilenamesMode filenames \<longleftrightarrow>
     length filenames = 1 \<and> (case filenames of [] \<Rightarrow> False | front # rest \<Rightarrow> front = ''-'')"

definition miniBatchMode :: "'a options \<Rightarrow> bool" where
  "miniBatchMode opts \<longleftrightarrow> miniBatch opts > 0"

definition multiThreadingAllowed :: "'a options \<Rightarrow> bool" where
  "multiThreadingAllowed opts \<longleftrightarrow>
     miniBatchMode opts \<and> \<not> emittingBundle opts \<and> \<not> profilingGraph opts"

definition numBatches :: "'a options \<Rightarrow> nat" where
  "numBatches opts =
     (if miniBatchMode opts then length (inputImageFilenames opts) div miniBatch opts else 1)"

definition numThreads :: "'a options \<Rightarrow> nat" where
  "numThreads opts =
     (if multiThreadingAllowed opts then min (miniBatchThreads opts) (numBatches opts) else 1)"

text \<open>
  \<^verbatim>\<open>(numBatches + numThreads - 1) / numThreads\<close>: with no thread the division is by
  zero, which is undefined behaviour (\<open>None\<close>).
\<close>

definition miniBatchesPerThread :: "'a options \<Rightarrow> nat option" where
  "miniBatchesPerThread opts =
     (if numThreads opts = 0 then None
      else Some ((numBatches opts + numThreads opts - 1) div numThreads opts))"

text \<open>The pair \<^verbatim>\<open>(startIndex, endIndex)\<close> that the spawning loop computes for thread \<open>i\<close>.\<close>

definition threadRange :: "'a options \<Rightarrow> nat \<Rightarrow> nat \<Rightarrow> nat \<times> nat" where
  "threadRange opts perThread i =
     (if numThreads opts > 1
      then (i * perThread * miniBatch opts,
            min ((i + 1) * perThread * miniBatch opts) (length (inputImageFilenames opts)))
      else (0, length (inputImageFilenames opts)))"

definition threadRanges :: "'a options \<Rightarrow> (nat \<times> nat) list option" where
  "threadRanges opts =
     (case miniBatchesPerThread opts of
        None \<Rightarrow> None
      | Some perThread \<Rightarrow> Some (map (threadRange opts perThread) [0..<numThreads opts]))"

text \<open>
  The workers run concurrently; what each does depends only on its own range (and,
  for the single worker of streaming mode, on standard input).  The model runs them
  one after the other, which is one of the possible schedules, adding up
  \<^verbatim>\<open>numErrors\<close> and collecting the events, and stops at a worker that aborts the
  process (first component \<open>True\<close>).
\<close>

fun runWorkers ::
  "'a::{ord,zero} options \<Rightarrow> bool \<Rightarrow> (nat \<times> nat) list \<Rightarrow> string list \<Rightarrow> int \<Rightarrow>
   'a event list \<Rightarrow> (bool \<times> int \<times> 'a event list) option" where
  "runWorkers opts streaming [] input errors evs = Some (False, errors, evs)"
| "runWorkers opts streaming (r # ranges) input errors evs =
     (case processImageRange opts streaming input (fst r) (snd r) of
        None \<Rightarrow> None
      | Some w \<Rightarrow>
          if aborted w then Some (True, errors + numErrors w, evs @ events w)
          else runWorkers opts streaming ranges (remainingInput w) (errors + numErrors w)
                 (evs @ events w))"

text \<open>
  How \<^verbatim>\<open>main\<close> ends: with an exit status (\<^verbatim>\<open>return\<close> or \<^verbatim>\<open>std::exit\<close>), by a
  failed \<^verbatim>\<open>GLOW_ASSERT\<close>, in undefined behaviour, or not at all.
\<close>

datatype outcome = Exit int | AssertionFailed | Undefined | NeverReturns

definition argsMessage :: string where
  "argsMessage =
     ''Args: Either positional inputImageFilenames or -inputImageListFile '' @
     ''must be used to specify input images.'' @ [CHR 0x0A]"

definition mismatchMessage :: "nat \<Rightarrow> nat \<Rightarrow> 'a token list" where
  "mismatchMessage labels files =
     [Str ''Number of matching indices: '', Num labels,
      Str ('' doesn'' @ [CHR 0x27] @ ''t match the number of files: ''), Num files,
      Str [CHR 0x0A]]"

definition warningMessage :: string where
  "warningMessage =
     ''WARNING: multi-threaded execution is not possible. Make '' @
     ''sure that minibatch size is specified and you are not '' @
     ''trying to dump profile or emit bundle.'' @ [CHR 0x0A]"

text \<open>
  The part of \<^verbatim>\<open>main\<close> from the banner on, once the options have passed the
  checks, with \<^verbatim>\<open>inputImageFilenames\<close> complete.
\<close>

definition runDriver ::
  "'a::{ord,zero} options \<Rightarrow> bool \<Rightarrow> outcome \<times> 'a event list" where
  "runDriver opts streaming =
     (let evs = [Outs [Str ''Model: '', Str (modelOptPath opts), Str [CHR 0x0A]]] @
                (if miniBatchThreads opts > 1 \<and> \<not> multiThreadingAllowed opts
                 then [Outs [Str warningMessage]] else []) @
                [Outs [Str ''Running '', Num (numThreads opts),
                       Str ('' thread(s).'' @ [CHR 0x0A])]]
      in case threadRanges opts of
           None \<Rightarrow> (Undefined, evs)
         | Some ranges \<Rightarrow>
             (case runWorkers opts streaming ranges (stdinLines opts) 0 evs of
                None \<Rightarrow> (Undefined, evs)
              | Some (abort, errors, evs') \<Rightarrow>
                  if abort then (AssertionFailed, evs') else (Exit errors, evs')))"

text \<open>\<^verbatim>\<open>main\<close>, after \<^verbatim>\<open>parseCommandLine\<close>.\<close>

definition main :: "'a::{ord,zero} options \<Rightarrow> outcome \<times> 'a event list" where
  "main opts0 =
     (if inputImageListFile opts0 = [] \<and> length (inputImageFilenames opts0) = 0
      then (Exit 1, [Errs [Str argsMessage]])
      else if inputImageListFile opts0 \<noteq> [] \<and> \<not> length (inputImageFilenames opts0) = 0
      then (AssertionFailed, [])
      else
        (case collectInputImages opts0 of
           None \<Rightarrow> (NeverReturns, [])
         | Some opts \<Rightarrow>
             if expectedMatchingLabels opts \<noteq> [] \<and>
                length (expectedMatchingLabels opts) \<noteq> length (inputImageFilenames opts)
             then (Exit 1,
                   [Errs (mismatchMessage (length (expectedMatchingLabels opts))
                            (length (inputImageFilenames opts)))])
             else
               (let streaming = streamInputFilenamesMode (inputImageFilenames opts)
                in if \<not> \<not> (streaming \<and> emittingBundle opts) then (AssertionFailed, [])
                   else if \<not> (\<not> miniBatchMode opts \<or> \<not> streaming) then (AssertionFailed, [])
                   else if \<not> (\<not> miniBatchMode opts \<or>
                                length (inputImageFilenames opts) mod miniBatch opts = 0)
                   then (AssertionFailed, [])
                   else runDriver opts streaming)))"


section \<open>The queue-backed device manager\<close>

text \<open>
  Modelled from the spec: the declarations of \<^verbatim>\<open>RunIdentifierTy\<close> and of the member
  \<^verbatim>\<open>nextIdentifier_\<close> (\<^verbatim>\<open>QueueBackedDeviceManager.h\<close>) are missing.  The spec
  calls a run identifier a monotonically increasing integer, so it is a natural
  number and \<^verbatim>\<open>nextIdentifier_++\<close> does not wrap; the initial value of the
  counter is whatever the state holds.
\<close>

type_synonym RunIdentifierTy = nat

text \<open>
  The closures handed to the work thread: each calls one of \<^verbatim>\<open>addNetworkImpl\<close>,
  \<^verbatim>\<open>evictNetworkImpl\<close>, \<^verbatim>\<open>runFunctionImpl\<close> with the captured arguments.  The
  module, the function map, the context and the callbacks are opaque.
\<close>

datatype ('m, 'f, 'r, 'c, 'k) task =
    AddNetworkImpl 'm 'f 'r
  | EvictNetworkImpl string
  | RunFunctionImpl RunIdentifierTy string 'c 'k

record ('m, 'f, 'r, 'c, 'k) QueueBackedDeviceManager =
  nextIdentifier :: RunIdentifierTy
  workThread :: "('m, 'f, 'r, 'c, 'k) task list"

text \<open>
  Modelled from the spec: \<^verbatim>\<open>ThreadPool::submit\<close>, the class of \<^verbatim>\<open>workThread_\<close>, is
  missing.  The spec's task queue is an ordered FIFO sequence to which producers
  append, so \<open>submit\<close> appends the task to the pending ones.
\<close>

definition submit ::
  "('m, 'f, 'r, 'c, 'k) task \<Rightarrow> ('m, 'f, 'r, 'c, 'k) QueueBackedDeviceManager \<Rightarrow>
   ('m, 'f, 'r, 'c, 'k) QueueBackedDeviceManager" where
  "submit t dm = dm\<lparr>workThread := workThread dm @ [t]\<rparr>"

definition addNetwork ::
  "('m, 'f, 'r, 'c, 'k) QueueBackedDeviceManager \<Rightarrow> 'm \<Rightarrow> 'f \<Rightarrow> 'r \<Rightarrow>
   ('m, 'f, 'r, 'c, 'k) QueueBackedDeviceManager" where
  "addNetwork dm network functions callback = submit (AddNetworkImpl network functions callback) dm"

definition evictNetwork ::
  "('m, 'f, 'r, 'c, 'k) QueueBackedDeviceManager \<Rightarrow> string \<Rightarrow>
   ('m, 'f, 'r, 'c, 'k) QueueBackedDeviceManager" where
  "evictNetwork dm functionName = submit (EvictNetworkImpl functionName) dm"

text \<open>
  \<^verbatim>\<open>RunIdentifierTy id = nextIdentifier_++; ...; workThread_.submit(funcShared);
  return id;\<close>  The local \<^verbatim>\<open>id\<close> is \<open>ident\<close> here, the members
  \<^verbatim>\<open>nextIdentifier_\<close> and \<^verbatim>\<open>workThread_\<close> are the fields \<open>nextIdentifier\<close> and
  \<open>workThread\<close>.
\<close>

definition runFunction ::
  "('m, 'f, 'r, 'c, 'k) QueueBackedDeviceManager \<Rightarrow> string \<Rightarrow> 'c \<Rightarrow> 'k \<Rightarrow>
   RunIdentifierTy \<times> ('m, 'f, 'r, 'c, 'k) QueueBackedDeviceManager" where
  "runFunction dm functionName ctx callback =
     (let ident = nextIdentifier dm;
          dm1 = dm\<lparr>nextIdentifier := nextIdentifier dm + 1\<rparr>
      in (ident, submit (RunFunctionImpl ident functionName ctx callback) dm1))"

text \<open>
  A caller's request, and a sequence of requests served one after the other; the
  identifiers that \<open>runFunction\<close> hands out are collected in the order of the calls.
\<close>

datatype ('m, 'f, 'r, 'c, 'k) request =
    AddNetwork 'm 'f 'r
  | EvictNetwork string
  | RunFunction string 'c 'k

fun serve ::
  "('m, 'f, 'r, 'c, 'k) QueueBackedDeviceManager \<Rightarrow> ('m, 'f, 'r, 'c, 'k) request \<Rightarrow>
   RunIdentifierTy list \<times> ('m, 'f, 'r, 'c, 'k) QueueBackedDeviceManager" where
  "serve dm (AddNetwork network functions callback) = ([], addNetwork dm network functions callback)"
| "serve dm (EvictNetwork functionName) = ([], evictNetwork dm functionName)"
| "serve dm (RunFunction functionName ctx callback) =
     (case runFunction dm functionName ctx callback of (ident, dm') \<Rightarrow> ([ident], dm'))"

fun serveAll ::
  "('m, 'f, 'r, 'c, 'k) QueueBackedDeviceManager \<Rightarrow> ('m, 'f, 'r, 'c, 'k) request list \<Rightarrow>
   RunIdentifierTy list \<times> ('m, 'f, 'r, 'c, 'k) QueueBackedDeviceManager" where
  "serveAll dm [] = ([], dm)"
| "serveAll dm (r # rs) =
     (case serve dm r of
        (ids, dm') \<Rightarrow> (case serveAll dm' rs of (ids', dm'') \<Rightarrow> (ids @ ids', dm'')))"


section \<open>Definitions for the statements and their examples\<close>

text \<open>
  The vector \<open>h\<close> is a binary heap on its first \<open>len\<close> elements, least key at the
  root: no element has a key below that of its parent.
\<close>

definition heap_upto :: "('e \<Rightarrow> 'k::linorder) \<Rightarrow> nat \<Rightarrow> 'e list \<Rightarrow> bool" where
  "heap_upto key len h \<longleftrightarrow> (\<forall>i. 0 < i \<and> i < len \<longrightarrow> key (h ! ((i - 1) div 2)) \<le> key (h ! i))"

text \<open>
  The heap with a hole, while a value moves up: every element but the one in the
  hole respects its parent, and the children of the hole respect its parent.
\<close>

definition up_inv :: "('e \<Rightarrow> 'k::linorder) \<Rightarrow> nat \<Rightarrow> 'e list \<Rightarrow> nat \<Rightarrow> bool" where
  "up_inv key len g hole \<longleftrightarrow>
     (\<forall>i. 0 < i \<and> i < len \<and> i \<noteq> hole \<longrightarrow> key (g ! ((i - 1) div 2)) \<le> key (g ! i)) \<and>
     (\<forall>i. 0 < hole \<and> 0 < i \<and> i < len \<and> (i - 1) div 2 = hole \<longrightarrow>
          key (g ! ((hole - 1) div 2)) \<le> key (g ! i))"

text \<open>
  The heap with a hole, while the hole moves down: what is in the hole does not
  count; the other elements respect their parents, and the children of the hole
  respect its parent.
\<close>

definition down_inv :: "('e \<Rightarrow> 'k::linorder) \<Rightarrow> nat \<Rightarrow> 'e list \<Rightarrow> nat \<Rightarrow> bool" where
  "down_inv key len f hole \<longleftrightarrow>
     (\<forall>i. 0 < i \<and> i < len \<and> i \<noteq> hole \<and> (i - 1) div 2 \<noteq> hole \<longrightarrow>
          key (f ! ((i - 1) div 2)) \<le> key (f ! i)) \<and>
     (\<forall>i. 0 < hole \<and> 0 < i \<and> i < len \<and> (i - 1) div 2 = hole \<longrightarrow>
          key (f ! ((hole - 1) div 2)) \<le> key (f ! i))"

text \<open>The key of a pair, for a function \<open>k\<close> that maps scores into a linear order.\<close>

definition pair_key :: "('a \<Rightarrow> 'b) \<Rightarrow> 'a \<times> nat \<Rightarrow> 'b \<times> nat" where
  "pair_key k p = (k (fst p), snd p)"

text \<open>
  The loop invariant of the scan, after the entries below index \<open>i\<close>, on the
  ascending list \<open>q\<close> of the keys of the pairs in the queue: it has no
  duplicates, holds \<open>min K i\<close> pairs \<open>(H ! j, j)\<close> with \<open>j < i\<close>, holds all of them
  while the queue is not full, no entry outside it scores more than an entry inside,
  and an entry outside it that ties with a later entry inside it was displaced by a
  still later entry of strictly greater score.
\<close>

definition topK_inv :: "nat \<Rightarrow> 'a::linorder list \<Rightarrow> nat \<Rightarrow> 'a topKQueue \<Rightarrow> bool" where
  "topK_inv K H i q \<longleftrightarrow>
     sorted q \<and> distinct q \<and>
     (\<forall>p\<in>set q. snd p < i \<and> fst p = H ! snd p) \<and>
     length q = min K i \<and>
     (length q < K \<longrightarrow> (\<forall>j<i. (H ! j, j) \<in> set q)) \<and>
     (\<forall>j<i. (H ! j, j) \<notin> set q \<longrightarrow> (\<forall>p\<in>set q. H ! j \<le> fst p)) \<and>
     (\<forall>a b. a < b \<and> b < i \<and> (H ! a, a) \<notin> set q \<and> (H ! b, b) \<in> set q \<and> H ! a = H ! b
            \<longrightarrow> (\<exists>t. b < t \<and> t < i \<and> H ! b < H ! t))"

text \<open>
  The invariant on the queue itself: it is a heap of pairs \<open>(H ! j, j)\<close>, and the
  ascending list of their keys satisfies the invariant above.
\<close>

definition heap_inv ::
  "('a::ord \<Rightarrow> 'b::linorder) \<Rightarrow> nat \<Rightarrow> 'a list \<Rightarrow> nat \<Rightarrow> 'a topKQueue \<Rightarrow> bool" where
  "heap_inv k K H i h \<longleftrightarrow>
     heap_upto (pair_key k) (length h) h \<and>
     (\<forall>p\<in>set h. snd p < i \<and> fst p = H ! snd p) \<and>
     topK_inv K (map k H) i (sort (map (pair_key k) h))"

text \<open>The value of a score that is not NaN.\<close>

definition the_val :: "'a::zero float \<Rightarrow> 'a" where
  "the_val x = (case x of NaN \<Rightarrow> 0 | Val a \<Rightarrow> a)"


text \<open>
  Example options: five images, mini-batches of one image, four threads asked for,
  and a model that scores label 1 highest for every image.
\<close>

definition exampleOptions :: "real options" where
  "exampleOptions = \<lparr>inputImageFilenames = [''a'', ''b'', ''c'', ''d'', ''e''], inputImageListFile = [],
     miniBatch = 1, miniBatchThreads = 4, labelOffset = 0, computeSoftmax = False,
     topKCount = 1, expectedMatchingLabels = [], emittingBundle = False,
     profilingGraph = False, modelOptPath = ''model'', listFile = None, stdinLines = [],
     applySoftmax = (\<lambda>H. H), imageDims = (\<lambda>batch. [length batch, 3, 224, 224]),
     inferenceOutput = (\<lambda>batch. map (\<lambda>f. [0.1, 0.9]) batch)\<rparr>"

text \<open>
  The lines of a file, cut at the newline characters; what follows the last
  newline is the last line.
\<close>

function fileLines :: "string \<Rightarrow> string list" where
  "fileLines chars =
     (case dropWhile (\<lambda>c. c \<noteq> CHR 0x0A) chars of
        [] \<Rightarrow> [takeWhile (\<lambda>c. c \<noteq> CHR 0x0A) chars]
      | newline # rest \<Rightarrow> takeWhile (\<lambda>c. c \<noteq> CHR 0x0A) chars # fileLines rest)"
  by pat_completeness auto
termination
proof (relation "measure length")
  fix chars :: string and newline rest
  assume "dropWhile (\<lambda>c. c \<noteq> CHR 0x0A) chars = newline # rest"
  then have "length (newline # rest) \<le> length chars"
    by (metis length_dropWhile_le)
  then show "(rest, chars) \<in> measure length" by simp
qed simp

declare fileLines.simps [simp del]

text \<open>A batch that is a run of consecutive entries of the list of filenames.\<close>

definition consecutive :: "string list \<Rightarrow> string list \<Rightarrow> bool" where
  "consecutive filenames batch \<longleftrightarrow> (\<exists>i n. batch = take n (drop i filenames))"

text \<open>
  Events that show no reading of standard input and in which every batch handed to
  the image loader is a run of consecutive entries of the list of filenames.
\<close>

definition quiet :: "string list \<Rightarrow> 'a event list \<Rightarrow> bool" where
  "quiet filenames evs \<longleftrightarrow>
     GetlineStdin \<notin> set evs \<and>
     (\<forall>batch. LoadImagesAndPreprocess batch \<in> set evs \<longrightarrow> consecutive filenames batch)"

text \<open>A worker whose events are quiet and whose current batch is such a run.\<close>

definition calm :: "'a options \<Rightarrow> 'a worker \<Rightarrow> bool" where
  "calm opts w \<longleftrightarrow>
     quiet (inputImageFilenames opts) (events w) \<and>
     consecutive (inputImageFilenames opts) (inputImageBatchFilenames w)"

text \<open>
  Options for the examples of streaming mode: the single filename \<open>"-"\<close> with one
  line on standard input; a \<open>"-"\<close> among two filenames; and a list file whose only
  line is \<open>"-"\<close>, with no positional filename.
\<close>

definition streamingOptions :: "real options" where
  "streamingOptions = exampleOptions\<lparr>inputImageFilenames := [''-''], miniBatch := 0,
     stdinLines := [''a.png b.png'']\<rparr>"

definition dashAmongOptions :: "real options" where
  "dashAmongOptions = exampleOptions\<lparr>inputImageFilenames := [''-'', ''a.png''], miniBatch := 0\<rparr>"

definition dashListFileOptions :: "real options" where
  "dashListFileOptions = exampleOptions\<lparr>inputImageFilenames := [], inputImageListFile := ''list.txt'',
     listFile := Some (''-'' @ [CHR 0x0A]), miniBatch := 0, stdinLines := [''a.png b.png'']\<rparr>"


section \<open>The invariant of the scan on ascending lists\<close>

text \<open>
  Pushing an entry into a queue that is not full, leaving a full queue as it is, and
  replacing the least pair of a full queue, seen on the ascending list of keys.
\<close>

lemma topK_invI:
  assumes "sorted q" "distinct q"
    "\<forall>p\<in>set q. snd p < i \<and> fst p = H ! snd p"
    "length q = min K i"
    "length q < K \<longrightarrow> (\<forall>j<i. (H ! j, j) \<in> set q)"
    "\<forall>j<i. (H ! j, j) \<notin> set q \<longrightarrow> (\<forall>p\<in>set q. H ! j \<le> fst p)"
    "\<forall>a b. a < b \<and> b < i \<and> (H ! a, a) \<notin> set q \<and> (H ! b, b) \<in> set q \<and> H ! a = H ! b
            \<longrightarrow> (\<exists>t. b < t \<and> t < i \<and> H ! b < H ! t)"
  shows "topK_inv K H i q"
  unfolding topK_inv_def
  apply (insert assms)
  apply (intro conjI)
        apply assumption+
  done

lemma fst_mono_pair: "(p :: 'a::linorder \<times> nat) \<le> q \<Longrightarrow> fst p \<le> fst q"
  by (cases p; cases q) (auto simp: less_eq_prod_def)

lemma inv_push:
  assumes "topK_inv K H i q" "length q < K"
  shows "topK_inv K H (Suc i) (insort (H ! i, i) q)"
proof -
  from assms have all: "\<forall>j<i. (H ! j, j) \<in> set q"
    and bound: "\<forall>p\<in>set q. snd p < i \<and> fst p = H ! snd p"
    and len: "length q = min K i" and srt: "sorted q" and dst: "distinct q"
    unfolding topK_inv_def by blast+
  have fresh: "(H ! i, i) \<notin> set q" using bound by force
  have 1: "sorted (insort (H ! i, i) q)" using srt by (simp add: sorted_insort)
  have 2: "distinct (insort (H ! i, i) q)" using dst fresh by (simp add: distinct_insort set_insort_key)
  have 3: "\<forall>p\<in>set (insort (H ! i, i) q). snd p < Suc i \<and> fst p = H ! snd p"
    using bound by (auto simp: set_insort_key less_Suc_eq)
  have 4: "length (insort (H ! i, i) q) = min K (Suc i)"
    using len assms(2) by simp
  have 5: "\<forall>j<Suc i. (H ! j, j) \<in> set (insort (H ! i, i) q)"
    using all by (auto simp: set_insort_key less_Suc_eq)
  have five: "length (insort (H ! i, i) q) < K \<longrightarrow> (\<forall>j<Suc i. (H ! j, j) \<in> set (insort (H ! i, i) q))"
    using 5 by simp
  have 6: "\<forall>j<Suc i. (H ! j, j) \<notin> set (insort (H ! i, i) q) \<longrightarrow>
             (\<forall>p\<in>set (insort (H ! i, i) q). H ! j \<le> fst p)"
    using 5 by blast
  have 7: "\<forall>a b. a < b \<and> b < Suc i \<and> (H ! a, a) \<notin> set (insort (H ! i, i) q) \<and>
             (H ! b, b) \<in> set (insort (H ! i, i) q) \<and> H ! a = H ! b
            \<longrightarrow> (\<exists>t. b < t \<and> t < Suc i \<and> H ! b < H ! t)"
  proof (intro allI impI)
    fix a b
    assume h: "a < b \<and> b < Suc i \<and> (H ! a, a) \<notin> set (insort (H ! i, i) q) \<and>
             (H ! b, b) \<in> set (insort (H ! i, i) q) \<and> H ! a = H ! b"
    then have "a < Suc i" by simp
    with 5 have "(H ! a, a) \<in> set (insort (H ! i, i) q)" by blast
    with h show "\<exists>t. b < t \<and> t < Suc i \<and> H ! b < H ! t" by blast
  qed
  show ?thesis
    by (rule topK_invI [OF 1 2 3 4 five 6 7])
qed

lemma inv_skip:
  assumes "topK_inv K H i (t # r)" "\<not> length (t # r) < K" "\<not> fst t < H ! i"
  shows "topK_inv K H (Suc i) (t # r)"
proof -
  let ?q = "t # r"
  from assms have bound: "\<forall>p\<in>set ?q. snd p < i \<and> fst p = H ! snd p"
    and len: "length ?q = min K i" and srt: "sorted ?q" and dst: "distinct ?q"
    and low: "\<forall>j<i. (H ! j, j) \<notin> set ?q \<longrightarrow> (\<forall>p\<in>set ?q. H ! j \<le> fst p)"
    and tie: "\<forall>a b. a < b \<and> b < i \<and> (H ! a, a) \<notin> set ?q \<and> (H ! b, b) \<in> set ?q \<and> H ! a = H ! b
            \<longrightarrow> (\<exists>t. b < t \<and> t < i \<and> H ! b < H ! t)"
    unfolding topK_inv_def by blast+
  have hd_le: "\<forall>p\<in>set ?q. fst t \<le> fst p"
    using srt by (auto intro: fst_mono_pair)
  have fresh: "(H ! i, i) \<notin> set ?q" using bound by force
  have 3: "\<forall>p\<in>set ?q. snd p < Suc i \<and> fst p = H ! snd p"
    using bound by (auto simp: less_Suc_eq)
  have 4: "length ?q = min K (Suc i)" using len assms(2) by simp
  have 5: "length ?q < K \<longrightarrow> (\<forall>j<Suc i. (H ! j, j) \<in> set ?q)" using assms(2) by simp
  have 6: "\<forall>j<Suc i. (H ! j, j) \<notin> set ?q \<longrightarrow> (\<forall>p\<in>set ?q. H ! j \<le> fst p)"
  proof (intro allI impI ballI)
    fix j p assume j: "j < Suc i" "(H ! j, j) \<notin> set ?q" and p: "p \<in> set ?q"
    show "H ! j \<le> fst p"
    proof (cases "j = i")
      case True
      with assms(3) hd_le p show ?thesis by (metis linorder_not_less order_trans)
    next
      case False
      with j have "j < i" by simp
      with low j(2) p show ?thesis by blast
    qed
  qed
  have 7: "\<forall>a b. a < b \<and> b < Suc i \<and> (H ! a, a) \<notin> set ?q \<and> (H ! b, b) \<in> set ?q \<and> H ! a = H ! b
            \<longrightarrow> (\<exists>t. b < t \<and> t < Suc i \<and> H ! b < H ! t)"
  proof (intro allI impI)
    fix a b assume h: "a < b \<and> b < Suc i \<and> (H ! a, a) \<notin> set ?q \<and> (H ! b, b) \<in> set ?q \<and> H ! a = H ! b"
    with fresh have "b < i" by (metis less_Suc_eq)
    with h tie obtain t where "b < t" "t < i" "H ! b < H ! t" by blast
    then show "\<exists>t. b < t \<and> t < Suc i \<and> H ! b < H ! t" using less_Suc_eq by blast
  qed
  show ?thesis
    by (rule topK_invI [OF srt dst 3 4 5 6 7])
qed

lemma inv_replace:
  assumes "topK_inv K H i (t # r)" "\<not> length (t # r) < K" "fst t < H ! i"
  shows "topK_inv K H (Suc i) (insort (H ! i, i) r)"
proof -
  let ?q = "t # r" and ?q' = "insort (H ! i, i) r"
  from assms have bound: "\<forall>p\<in>set ?q. snd p < i \<and> fst p = H ! snd p"
    and len: "length ?q = min K i" and srt: "sorted ?q" and dst: "distinct ?q"
    and low: "\<forall>j<i. (H ! j, j) \<notin> set ?q \<longrightarrow> (\<forall>p\<in>set ?q. H ! j \<le> fst p)"
    and tie: "\<forall>a b. a < b \<and> b < i \<and> (H ! a, a) \<notin> set ?q \<and> (H ! b, b) \<in> set ?q \<and> H ! a = H ! b
            \<longrightarrow> (\<exists>t. b < t \<and> t < i \<and> H ! b < H ! t)"
    unfolding topK_inv_def by blast+
  have set': "set ?q' = insert (H ! i, i) (set r)" by (simp add: set_insort_key)
  have t_eq: "t = (H ! snd t, snd t)" and t_lt: "snd t < i" using bound by (auto simp: prod_eq_iff)
  have t_notin: "t \<notin> set r" using dst by simp
  have hd_le: "\<forall>p\<in>set ?q. fst t \<le> fst p"
    using srt by (auto intro: fst_mono_pair)
  have fresh: "(H ! i, i) \<notin> set ?q" using bound by force
  have 1: "sorted ?q'" using srt by (simp add: sorted_insort)
  have 2: "distinct ?q'" using dst fresh by (simp add: distinct_insort set_insort_key)
  have 3: "\<forall>p\<in>set ?q'. snd p < Suc i \<and> fst p = H ! snd p"
    using bound by (auto simp: set' less_Suc_eq)
  have 4: "length ?q' = min K (Suc i)" using len assms(2) by simp
  have 5: "length ?q' < K \<longrightarrow> (\<forall>j<Suc i. (H ! j, j) \<in> set ?q')" using assms(2) by simp
  have 6: "\<forall>j<Suc i. (H ! j, j) \<notin> set ?q' \<longrightarrow> (\<forall>p\<in>set ?q'. H ! j \<le> fst p)"
  proof (intro allI impI ballI)
    fix j p assume j: "j < Suc i" "(H ! j, j) \<notin> set ?q'" and p: "p \<in> set ?q'"
    from j have ji: "j < i" by (auto simp: set' less_Suc_eq)
    have jt: "H ! j \<le> fst t"
    proof (cases "(H ! j, j) = t")
      case True then show ?thesis by (metis fst_conv order_refl)
    next
      case False
      with j(2) have "(H ! j, j) \<notin> set ?q" by (simp add: set')
      with low ji show ?thesis by simp
    qed
    from p have "p = (H ! i, i) \<or> p \<in> set r" by (simp add: set')
    then show "H ! j \<le> fst p"
    proof
      assume "p = (H ! i, i)"
      with jt assms(3) show ?thesis by simp
    next
      assume "p \<in> set r"
      with hd_le jt show ?thesis by (meson list.set_intros(2) order_trans)
    qed
  qed
  have 7: "\<forall>a b. a < b \<and> b < Suc i \<and> (H ! a, a) \<notin> set ?q' \<and> (H ! b, b) \<in> set ?q' \<and> H ! a = H ! b
            \<longrightarrow> (\<exists>t. b < t \<and> t < Suc i \<and> H ! b < H ! t)"
  proof (intro allI impI)
    fix a b assume h: "a < b \<and> b < Suc i \<and> (H ! a, a) \<notin> set ?q' \<and> (H ! b, b) \<in> set ?q' \<and> H ! a = H ! b"
    then have ai: "a < i" by simp
    have at: "H ! a \<le> fst t"
    proof (cases "(H ! a, a) = t")
      case True then show ?thesis by (metis fst_conv order_refl)
    next
      case False
      moreover from h have "(H ! a, a) \<notin> set r" unfolding set' by blast
      ultimately have "(H ! a, a) \<notin> set ?q" by auto
      with low ai show ?thesis by simp
    qed
    have bi: "b \<noteq> i" using at assms(3) h by auto
    with h have b: "b < i" "(H ! b, b) \<in> set r" by (auto simp: set')
    show "\<exists>t. b < t \<and> t < Suc i \<and> H ! b < H ! t"
    proof (cases "(H ! a, a) = t")
      case True
      then have "H ! b < H ! i" using assms(3) h by (metis fst_conv)
      with b show ?thesis by blast
    next
      case False
      moreover from h have "(H ! a, a) \<notin> set r" unfolding set' by blast
      ultimately have "(H ! a, a) \<notin> set ?q" by auto
      with tie h b obtain t' where "b < t'" "t' < i" "H ! b < H ! t'"
        by (metis list.set_intros(2))
      then show ?thesis using less_Suc_eq by blast
    qed
  qed
  show ?thesis
    by (rule topK_invI [OF 1 2 3 4 5 6 7])
qed


lemma inv_init: "topK_inv K H 0 []"
  by (simp add: topK_inv_def)

lemma drop_update_here: "n < length xs \<Longrightarrow> drop n (xs[n := t]) = t # drop (Suc n) xs"
proof -
  assume n: "n < length xs"
  then have "drop n (xs[n := t]) = (xs[n := t]) ! n # drop (Suc n) (xs[n := t])"
    by (intro Cons_nth_drop_Suc [symmetric]) simp
  with n show ?thesis by simp
qed

lemma inv_selected_iff:
  assumes "topK_inv K H n q"
  shows "(H ! j, j) \<in> set q \<longleftrightarrow> j \<in> snd ` set q"
proof
  assume "(H ! j, j) \<in> set q"
  then show "j \<in> snd ` set q" by force
next
  assume "j \<in> snd ` set q"
  then obtain p where p: "p \<in> set q" "snd p = j" by auto
  with assms have "fst p = H ! j" unfolding topK_inv_def by blast
  with p show "(H ! j, j) \<in> set q" by (metis prod.collapse)
qed

lemma inv_distinct_snd:
  assumes "topK_inv K H n q"
  shows "distinct (map snd q)"
proof -
  from assms have d: "distinct q" and b: "\<forall>p\<in>set q. snd p < n \<and> fst p = H ! snd p"
    unfolding topK_inv_def by blast+
  have "inj_on snd (set q)"
  proof (rule inj_onI)
    fix x y assume "x \<in> set q" "y \<in> set q" "snd x = snd y"
    with b show "x = y" by (metis prod_eqI)
  qed
  with d show ?thesis by (simp add: distinct_map)
qed

lemma less_pair_iff:
  "(p :: 'a::linorder \<times> nat) < q \<longleftrightarrow> fst p < fst q \<or> (fst p = fst q \<and> snd p < snd q)"
  by (cases p; cases q) (auto simp: less_prod_def)


section \<open>The heap algorithms under a linear order of keys\<close>

text \<open>
  Where the comparison \<open>cmp a b\<close> on the elements at hand says that the key of \<open>b\<close>
  is below the key of \<open>a\<close>, pushing up restores the heap, keeps the elements and
  leaves the vector beyond the heap alone.
\<close>

lemma parent_less: "0 < i \<Longrightarrow> (i - 1) div 2 < (i::nat)"
  by simp

lemma up_inv_swap:
  fixes key :: "'e \<Rightarrow> 'k::linorder"
  assumes inv: "up_inv key len g hole" and h: "0 < hole" "hole < len" "len \<le> length g"
    and lt: "key (g ! hole) < key (g ! ((hole - 1) div 2))"
  shows "up_inv key len (g[hole := g ! ((hole - 1) div 2), (hole - 1) div 2 := g ! hole])
           ((hole - 1) div 2)"
proof -
  let ?p = "(hole - 1) div 2"
  let ?g1 = "g[hole := g ! ?p, ?p := g ! hole]"
  from h have ph: "?p < hole" by simp
  from inv have P1: "\<And>i. 0 < i \<Longrightarrow> i < len \<Longrightarrow> i \<noteq> hole \<Longrightarrow> key (g ! ((i - 1) div 2)) \<le> key (g ! i)"
    and P2: "\<And>i. 0 < i \<Longrightarrow> i < len \<Longrightarrow> (i - 1) div 2 = hole \<Longrightarrow> key (g ! ?p) \<le> key (g ! i)"
    using h(1) unfolding up_inv_def by blast+
  have at: "\<And>i. i < len \<Longrightarrow> ?g1 ! i = (if i = ?p then g ! hole else if i = hole then g ! ?p else g ! i)"
    using h ph by (simp add: nth_list_update)
  have Q1: "key (?g1 ! ((i - 1) div 2)) \<le> key (?g1 ! i)" if i: "0 < i" "i < len" "i \<noteq> ?p" for i
  proof -
    have pi2: "(i - 1) div 2 < i" by (rule parent_less [OF i(1)])
    with i(2) have pi1: "(i - 1) div 2 < len" by linarith
    note pi = pi1 pi2
    show ?thesis
    proof (cases "i = hole")
      case True
      with at [OF i(2)] at [OF pi(1)] ph lt show ?thesis by simp
    next
      case False
      with at [OF i(2)] i(3) have gi: "?g1 ! i = g ! i" by simp
      consider (a) "(i - 1) div 2 = ?p" | (b) "(i - 1) div 2 = hole" | (c) "(i - 1) div 2 \<noteq> ?p" "(i - 1) div 2 \<noteq> hole"
        by blast
      then show ?thesis
      proof cases
        case a
        with at [OF pi(1)] have "?g1 ! ((i - 1) div 2) = g ! hole" by simp
        moreover from P1 [OF i(1,2) False] a have "key (g ! ?p) \<le> key (g ! i)" by simp
        ultimately show ?thesis using lt gi by simp
      next
        case b
        with at [OF pi(1)] ph have "?g1 ! ((i - 1) div 2) = g ! ?p" by simp
        with P2 [OF i(1,2) b] gi show ?thesis by simp
      next
        case c
        with at [OF pi(1)] have "?g1 ! ((i - 1) div 2) = g ! ((i - 1) div 2)" by simp
        with P1 [OF i(1,2) False] gi show ?thesis by simp
      qed
    qed
  qed
  have Q2: "key (?g1 ! ((?p - 1) div 2)) \<le> key (?g1 ! i)"
    if i: "0 < ?p" "0 < i" "i < len" "(i - 1) div 2 = ?p" for i
  proof -
    have pp2: "(?p - 1) div 2 < ?p" by (rule parent_less [OF i(1)])
    with ph h(2) have pp1: "(?p - 1) div 2 < len" by linarith
    note pp = pp1 pp2
    with at [OF pp(1)] ph have gpp: "?g1 ! ((?p - 1) div 2) = g ! ((?p - 1) div 2)" by simp
    from P1 [of ?p] i(1) ph h have le: "key (g ! ((?p - 1) div 2)) \<le> key (g ! ?p)" by simp
    from i have ip: "i \<noteq> ?p" using parent_less [OF i(2)] by simp
    show ?thesis
    proof (cases "i = hole")
      case True
      with at [OF i(3)] ph have "?g1 ! i = g ! ?p" by simp
      with gpp le show ?thesis by simp
    next
      case False
      with at [OF i(3)] ip have "?g1 ! i = g ! i" by simp
      moreover from P1 [OF i(2,3) False] i(4) have "key (g ! ?p) \<le> key (g ! i)" by simp
      ultimately show ?thesis using gpp le by simp
    qed
  qed
  show ?thesis unfolding up_inv_def using Q1 Q2 by blast
qed

lemma push_heap_impl_correct:
  fixes key :: "'e \<Rightarrow> 'k::linorder"
  shows "topIndex = 0 \<Longrightarrow> \<forall>a\<in>A. \<forall>b\<in>A. cmp a b \<longleftrightarrow> key b < key a \<Longrightarrow>
     hole < len \<Longrightarrow> len \<le> length first \<Longrightarrow> set first \<subseteq> A \<Longrightarrow> v \<in> A \<Longrightarrow>
     up_inv key len (first[hole := v]) hole \<Longrightarrow>
     heap_upto key len (push_heap_impl cmp first hole topIndex v) \<and>
     mset (push_heap_impl cmp first hole topIndex v) = mset (first[hole := v]) \<and>
     drop len (push_heap_impl cmp first hole topIndex v) = drop len first"
proof (induction cmp first hole topIndex v rule: push_heap_impl.induct)
  case (1 cmp first hole topIndex v)
  let ?p = "(hole - 1) div 2"
  let ?g = "first[hole := v]"
  note top = "1.prems"(1) and cmp = "1.prems"(2) and hl = "1.prems"(3) and ll = "1.prems"(4)
    and sub = "1.prems"(5) and vA = "1.prems"(6) and inv = "1.prems"(7)
  from hl ll have hlen: "hole < length first" by simp
  show ?case
  proof (cases "hole > topIndex \<and> cmp (first ! ?p) v")
    case True
    with top have h0: "0 < hole" by simp
    then have ph: "?p < hole" by simp
    with hlen have "first ! ?p \<in> set first" by simp
    with sub have pA: "first ! ?p \<in> A" by blast
    with cmp vA True have lt: "key v < key (first ! ?p)" by blast
    let ?f1 = "first[hole := first ! ?p]"
    have eq: "push_heap_impl cmp first hole topIndex v = push_heap_impl cmp ?f1 ?p topIndex v"
      using True by (subst push_heap_impl.simps) (simp add: Let_def)
    have g1: "?f1[?p := v] = ?g[hole := ?g ! ?p, ?p := ?g ! hole]"
      using ph hlen by simp
    have lt': "key (?g ! hole) < key (?g ! ?p)" using lt ph hlen by simp
    have inv1: "up_inv key len (?f1[?p := v]) ?p"
      unfolding g1 by (rule up_inv_swap [OF inv h0 hl _ lt']) (simp add: ll)
    have sub1: "set ?f1 \<subseteq> A"
      using sub pA set_update_subset_insert [of first hole "first ! ?p"] by blast
    have IH: "heap_upto key len (push_heap_impl cmp ?f1 ?p topIndex v) \<and>
       mset (push_heap_impl cmp ?f1 ?p topIndex v) = mset (?f1[?p := v]) \<and>
       drop len (push_heap_impl cmp ?f1 ?p topIndex v) = drop len ?f1"
      using "1.IH" [OF refl True top cmp _ _ sub1 vA inv1] ph hl ll by simp
    have "mset (?g[hole := ?g ! ?p, ?p := ?g ! hole]) = mset ?g"
      using ph hlen by (intro mset_swap) simp_all
    moreover have "drop len ?f1 = drop len first" using hl by simp
    ultimately show ?thesis using IH unfolding eq g1 by simp
  next
    case False
    then have eq: "push_heap_impl cmp first hole topIndex v = ?g"
      by (subst push_heap_impl.simps) (auto simp: Let_def)
    have "key (?g ! ((i - 1) div 2)) \<le> key (?g ! i)" if i: "0 < i" "i < len" for i
    proof (cases "i = hole")
      case ne: False
      with inv i show ?thesis unfolding up_inv_def by blast
    next
      case True
      with i have h0: "0 < hole" by simp
      then have ph: "?p < hole" by simp
      with hlen have "first ! ?p \<in> set first" by simp
      with sub have pA: "first ! ?p \<in> A" by blast
      from False h0 top have "\<not> cmp (first ! ?p) v" by simp
      with cmp pA vA have "key (first ! ?p) \<le> key v" by auto
      with True ph hlen show ?thesis by simp
    qed
    then have "heap_upto key len ?g" unfolding heap_upto_def by blast
    moreover have "drop len ?g = drop len first" using hl by simp
    ultimately show ?thesis unfolding eq by simp
  qed
qed

text \<open>The same for the way down, and for the whole of \<^verbatim>\<open>std::__adjust_heap\<close>.\<close>

lemma child_parent: "0 < i \<Longrightarrow> (i - 1) div 2 = h \<longleftrightarrow> i = 2 * h + 1 \<or> i = 2 * h + 2" for i h :: nat
  by presburger

lemma two_children: "hole < (len - 1) div 2 \<Longrightarrow> 2 * (hole + 1) < (len::nat)"
  by presburger

lemma leaf_index:
  fixes len h i :: nat
  assumes "(len - 1) div 2 \<le> h" "\<not> (len mod 2 = 0 \<and> 2 \<le> len \<and> h = (len - 2) div 2)" "0 < i" "i < len"
  shows "(i - 1) div 2 \<noteq> h"
proof
  assume "(i - 1) div 2 = h"
  with assms(3) have "i = 2 * h + 1 \<or> i = 2 * h + 2" by (simp only: child_parent)
  with assms(4) have a: "2 * h + 2 \<le> len" by linarith
  from assms(1) have b: "len \<le> 2 * h + 2" by linarith
  from a b have "len = 2 * h + 2" by simp
  with assms(2) show False by simp
qed

lemma single_child:
  fixes len h :: nat
  assumes "len mod 2 = 0 \<and> 2 \<le> len \<and> h = (len - 2) div 2"
  shows "2 * (h + 1) - 1 = len - 1"
proof -
  from assms show ?thesis by presburger
qed

lemma only_child:
  fixes len h i :: nat
  assumes "2 * (h + 1) - 1 = len - 1" "0 < i" "i < len" "(i - 1) div 2 = h"
  shows "i = 2 * (h + 1) - 1"
proof -
  from assms(2,4) have "i = 2 * h + 1 \<or> i = 2 * h + 2" by (simp only: child_parent)
  with assms(1,3) show ?thesis by presburger
qed

lemma down_inv_step:
  fixes key :: "'e \<Rightarrow> 'k::linorder"
  assumes inv: "down_inv key len f hole"
    and s: "(s - 1) div 2 = hole" "0 < s" "s < len" "len \<le> length f"
    and least: "\<And>i. 0 < i \<Longrightarrow> i < len \<Longrightarrow> (i - 1) div 2 = hole \<Longrightarrow> key (f ! s) \<le> key (f ! i)"
  shows "down_inv key len (f[hole := f ! s]) s"
proof -
  let ?f1 = "f[hole := f ! s]"
  from s have hs: "hole < s" using parent_less [OF s(2)] by simp
  with s have hl: "hole < length f" by linarith
  from inv have P1: "\<And>i. 0 < i \<Longrightarrow> i < len \<Longrightarrow> i \<noteq> hole \<Longrightarrow> (i - 1) div 2 \<noteq> hole \<Longrightarrow>
        key (f ! ((i - 1) div 2)) \<le> key (f ! i)"
    and P2: "\<And>i. 0 < hole \<Longrightarrow> 0 < i \<Longrightarrow> i < len \<Longrightarrow> (i - 1) div 2 = hole \<Longrightarrow>
        key (f ! ((hole - 1) div 2)) \<le> key (f ! i)"
    unfolding down_inv_def by blast+
  have at: "\<And>i. ?f1 ! i = (if i = hole then f ! s else f ! i)"
    using hl by (simp add: nth_list_update)
  have Q1: "key (?f1 ! ((i - 1) div 2)) \<le> key (?f1 ! i)"
    if i: "0 < i" "i < len" "i \<noteq> s" "(i - 1) div 2 \<noteq> s" for i
  proof (cases "i = hole")
    case True
    with i have h0: "0 < hole" by simp
    have "(hole - 1) div 2 \<noteq> hole" using parent_less [OF h0] by simp
    with True at have "?f1 ! ((i - 1) div 2) = f ! ((hole - 1) div 2)" "?f1 ! i = f ! s" by simp_all
    with P2 [OF h0 s(2,3,1)] show ?thesis by simp
  next
    case False
    with at have fi: "?f1 ! i = f ! i" by simp
    show ?thesis
    proof (cases "(i - 1) div 2 = hole")
      case True
      with at have "?f1 ! ((i - 1) div 2) = f ! s" by simp
      with least [OF i(1,2) True] fi show ?thesis by simp
    next
      case ne: False
      with at have "?f1 ! ((i - 1) div 2) = f ! ((i - 1) div 2)" by simp
      with P1 [OF i(1,2) False ne] fi show ?thesis by simp
    qed
  qed
  have Q2: "key (?f1 ! ((s - 1) div 2)) \<le> key (?f1 ! i)"
    if i: "0 < i" "i < len" "(i - 1) div 2 = s" for i
  proof -
    from i have si: "s < i" using parent_less [OF i(1)] by simp
    with hs have "i \<noteq> hole" by simp
    with at have fi: "?f1 ! i = f ! i" by simp
    from s(1) at have fs: "?f1 ! ((s - 1) div 2) = f ! s" by simp
    from hs i(3) have "(i - 1) div 2 \<noteq> hole" by simp
    from P1 [OF i(1,2) \<open>i \<noteq> hole\<close> this] i(3) have "key (f ! s) \<le> key (f ! i)" by simp
    with fi fs show ?thesis by simp
  qed
  show ?thesis unfolding down_inv_def using Q1 Q2 by blast
qed

lemma mset_move_hole:
  assumes "hole < length f" "s < length f" "hole \<noteq> s"
  shows "mset (f[hole := f ! s, s := v]) = mset (f[hole := v])"
proof -
  let ?g = "f[hole := v]"
  have "f[hole := f ! s, s := v] = ?g[hole := ?g ! s, s := ?g ! hole]"
    using assms by simp
  moreover have "mset (?g[hole := ?g ! s, s := ?g ! hole]) = mset ?g"
    using assms by (intro mset_swap) simp_all
  ultimately show ?thesis by simp
qed

lemma adjust_heap_loop_correct:
  fixes key :: "'e \<Rightarrow> 'k::linorder"
  shows "\<forall>a\<in>A. \<forall>b\<in>A. cmp a b \<longleftrightarrow> key b < key a \<Longrightarrow>
     hole < len \<Longrightarrow> len \<le> length first \<Longrightarrow> set first \<subseteq> A \<Longrightarrow>
     down_inv key len first hole \<Longrightarrow>
     adjust_heap_loop cmp first hole len = (f1, h1) \<Longrightarrow>
     h1 < len \<and> (len - 1) div 2 \<le> h1 \<and> length f1 = length first \<and> set f1 \<subseteq> A \<and>
     down_inv key len f1 h1 \<and> (\<forall>v. mset (f1[h1 := v]) = mset (first[hole := v])) \<and>
     drop len f1 = drop len first"
proof (induction cmp first hole len arbitrary: f1 h1 rule: adjust_heap_loop.induct)
  case (1 cmp first hole len)
  note cmp = "1.prems"(1) and hl = "1.prems"(2) and ll = "1.prems"(3) and sub = "1.prems"(4)
    and inv = "1.prems"(5) and res = "1.prems"(6)
  show ?case
  proof (cases "hole < (len - 1) div 2")
    case False
    with res have "f1 = first" "h1 = hole"
      by (subst (asm) adjust_heap_loop.simps, simp)+
    with False hl sub inv show ?thesis by simp
  next
    case True
    let ?c = "2 * (hole + 1)"
    let ?s = "if cmp (first ! ?c) (first ! (?c - 1)) then ?c - 1 else ?c"
    let ?f' = "first[hole := first ! ?s]"
    from True have cl: "?c < len" by (rule two_children)
    then have c1l: "?c - 1 < len" by simp
    from cl ll have cA: "first ! ?c \<in> A" using sub nth_mem [of ?c first] by (simp add: subset_eq)
    from c1l ll have c1A: "first ! (?c - 1) \<in> A" using sub nth_mem [of "?c - 1" first] by (simp add: subset_eq)
    have sl: "?s < len" using cl c1l by simp
    have s0: "0 < ?s" by simp
    have sp: "(?s - 1) div 2 = hole" by simp
    have hs: "hole < ?s" by simp
    from cmp cA c1A have cc: "cmp (first ! ?c) (first ! (?c - 1)) \<longleftrightarrow> key (first ! (?c - 1)) < key (first ! ?c)"
      by blast
    have least: "key (first ! ?s) \<le> key (first ! i)" if i: "0 < i" "i < len" "(i - 1) div 2 = hole" for i
    proof -
      from i(1,3) have "i = 2 * hole + 1 \<or> i = 2 * hole + 2" by (simp only: child_parent)
      then have "i = ?c - 1 \<or> i = ?c" by auto
      then show ?thesis using cc by (cases "cmp (first ! ?c) (first ! (?c - 1))") auto
    qed
    have inv': "down_inv key len ?f' ?s"
      by (rule down_inv_step [OF inv sp s0 sl ll least])
    from sl ll have "first ! ?s \<in> A" using sub nth_mem [of ?s first] by (simp add: subset_eq)
    then have sub': "set ?f' \<subseteq> A"
      using sub set_update_subset_insert [of first hole "first ! ?s"] by blast
    have step: "adjust_heap_loop cmp first hole len = adjust_heap_loop cmp ?f' ?s len"
      by (subst adjust_heap_loop.simps) (simp only: True if_True Let_def)
    have res': "adjust_heap_loop cmp ?f' ?s len = (f1, h1)"
      using res unfolding step .
    have IH: "h1 < len \<and> (len - 1) div 2 \<le> h1 \<and> length f1 = length ?f' \<and> set f1 \<subseteq> A \<and>
       down_inv key len f1 h1 \<and> (\<forall>v. mset (f1[h1 := v]) = mset (?f'[?s := v])) \<and>
       drop len f1 = drop len ?f'"
      by (rule "1.IH" [OF True refl refl cmp sl _ sub' inv' res']) (simp add: ll)
    have "mset (?f'[?s := v]) = mset (first[hole := v])" for v
      using hl ll sl hs by (intro mset_move_hole) simp_all
    moreover have "drop len ?f' = drop len first" using hl by simp
    ultimately show ?thesis using IH by simp
  qed
qed

lemma adjust_heap_impl_correct:
  fixes key :: "'e \<Rightarrow> 'k::linorder"
  assumes cmp: "\<forall>a\<in>A. \<forall>b\<in>A. cmp a b \<longleftrightarrow> key b < key a"
    and len: "0 < len" "len \<le> length first" and sub: "set first \<subseteq> A" and vA: "v \<in> A"
    and inv: "down_inv key len first 0"
  shows "heap_upto key len (adjust_heap_impl cmp first 0 len v) \<and>
     mset (adjust_heap_impl cmp first 0 len v) = mset (first[0 := v]) \<and>
     drop len (adjust_heap_impl cmp first 0 len v) = drop len first"
proof -
  obtain f1 h1 where l: "adjust_heap_loop cmp first 0 len = (f1, h1)"
    by (cases "adjust_heap_loop cmp first 0 len")
  from adjust_heap_loop_correct [OF cmp len(1,2) sub inv l]
  have h1: "h1 < len" "(len - 1) div 2 \<le> h1" and lf: "length f1 = length first"
    and sub1: "set f1 \<subseteq> A" and inv1: "down_inv key len f1 h1"
    and ms: "\<And>v. mset (f1[h1 := v]) = mset (first[0 := v])"
    and dr: "drop len f1 = drop len first" by blast+
  from inv1 have P1: "\<And>i. 0 < i \<Longrightarrow> i < len \<Longrightarrow> i \<noteq> h1 \<Longrightarrow> (i - 1) div 2 \<noteq> h1 \<Longrightarrow>
        key (f1 ! ((i - 1) div 2)) \<le> key (f1 ! i)"
    and P2: "\<And>i. 0 < h1 \<Longrightarrow> 0 < i \<Longrightarrow> i < len \<Longrightarrow> (i - 1) div 2 = h1 \<Longrightarrow>
        key (f1 ! ((h1 - 1) div 2)) \<le> key (f1 ! i)"
    unfolding down_inv_def by blast+
  show ?thesis
  proof (cases "len mod 2 = 0 \<and> 2 \<le> len \<and> h1 = (len - 2) div 2")
    case True
    let ?c = "2 * (h1 + 1) - 1"
    let ?f2 = "f1[h1 := f1 ! ?c]"
    from True have c: "?c = len - 1" by (rule single_child)
    with len have cl: "?c < len" by simp
    have cp: "(?c - 1) div 2 = h1" by simp
    have c0: "0 < ?c" by simp
    have only: "i = ?c" if "0 < i" "i < len" "(i - 1) div 2 = h1" for i
      by (rule only_child [OF c that])
    have least: "key (f1 ! ?c) \<le> key (f1 ! i)" if "0 < i" "i < len" "(i - 1) div 2 = h1" for i
      using only [OF that] by simp
    have inv2: "down_inv key len ?f2 ?c"
      by (rule down_inv_step [OF inv1 cp c0 cl _ least]) (simp_all add: lf len)
    have leaf: "(i - 1) div 2 \<noteq> ?c" if "0 < i" "i < len" for i
      using parent_less [OF that(1)] that(2) c by linarith
    have up: "up_inv key len (?f2[?c := v]) ?c"
      unfolding up_inv_def
    proof (intro conjI allI impI)
      fix i assume i: "0 < i \<and> i < len \<and> i \<noteq> ?c"
      then have "(i - 1) div 2 \<noteq> ?c" using leaf by blast
      with i inv2 have "key (?f2 ! ((i - 1) div 2)) \<le> key (?f2 ! i)"
        unfolding down_inv_def by blast
      with i \<open>(i - 1) div 2 \<noteq> ?c\<close> show "key (?f2[?c := v] ! ((i - 1) div 2)) \<le> key (?f2[?c := v] ! i)"
        by (simp add: nth_list_update)
    next
      fix i assume "0 < ?c \<and> 0 < i \<and> i < len \<and> (i - 1) div 2 = ?c"
      with leaf have False by blast
      then show "key (?f2[?c := v] ! ((?c - 1) div 2)) \<le> key (?f2[?c := v] ! i)" ..
    qed
    from cl lf len have "f1 ! ?c \<in> A" using sub1 nth_mem [of ?c f1] by (simp add: subset_eq)
    then have sub2: "set ?f2 \<subseteq> A"
      using sub1 set_update_subset_insert [of f1 h1 "f1 ! ?c"] by blast
    have eq: "adjust_heap_impl cmp first 0 len v = push_heap_impl cmp ?f2 ?c 0 v"
      using True l by (simp add: adjust_heap_impl_def)
    have "heap_upto key len (push_heap_impl cmp ?f2 ?c 0 v) \<and>
       mset (push_heap_impl cmp ?f2 ?c 0 v) = mset (?f2[?c := v]) \<and>
       drop len (push_heap_impl cmp ?f2 ?c 0 v) = drop len ?f2"
      by (rule push_heap_impl_correct [OF refl cmp cl _ sub2 vA up]) (simp add: lf len)
    moreover have "mset (?f2[?c := v]) = mset (f1[h1 := v])"
      using h1 cl lf len by (intro mset_move_hole) simp_all
    moreover have "drop len ?f2 = drop len f1" using h1 by simp
    ultimately show ?thesis unfolding eq using ms dr by simp
  next
    case False
    have leaf: "(i - 1) div 2 \<noteq> h1" if "0 < i" "i < len" for i
      by (rule leaf_index [OF h1(2) False that])
    have up: "up_inv key len (f1[h1 := v]) h1"
      unfolding up_inv_def
    proof (intro conjI allI impI)
      fix i assume i: "0 < i \<and> i < len \<and> i \<noteq> h1"
      then have "(i - 1) div 2 \<noteq> h1" using leaf by blast
      with i P1 have "key (f1 ! ((i - 1) div 2)) \<le> key (f1 ! i)" by blast
      with i \<open>(i - 1) div 2 \<noteq> h1\<close> show "key (f1[h1 := v] ! ((i - 1) div 2)) \<le> key (f1[h1 := v] ! i)"
        by (simp add: nth_list_update)
    next
      fix i assume "0 < h1 \<and> 0 < i \<and> i < len \<and> (i - 1) div 2 = h1"
      with leaf have False by blast
      then show "key (f1[h1 := v] ! ((h1 - 1) div 2)) \<le> key (f1[h1 := v] ! i)" ..
    qed
    have eq: "adjust_heap_impl cmp first 0 len v = push_heap_impl cmp f1 h1 0 v"
      using False l by (auto simp: adjust_heap_impl_def)
    have "heap_upto key len (push_heap_impl cmp f1 h1 0 v) \<and>
       mset (push_heap_impl cmp f1 h1 0 v) = mset (f1[h1 := v]) \<and>
       drop len (push_heap_impl cmp f1 h1 0 v) = drop len f1"
      by (rule push_heap_impl_correct [OF refl cmp h1(1) _ sub1 vA up]) (simp add: lf len)
    then show ?thesis unfolding eq using ms dr by simp
  qed
qed

text \<open>
  The queue: a push adds its pair to the heap, a pop removes the pair at the root,
  which has the least key; on the ascending list of keys these are an insertion and
  the removal of the head.
\<close>

lemma greater_pair_key:
  fixes k :: "'a::ord \<Rightarrow> 'b::linorder"
  assumes "\<forall>x\<in>S. \<forall>y\<in>S. (x < y) = (k x < k y)"
  shows "\<forall>a\<in>{p. fst p \<in> S}. \<forall>b\<in>{p. fst p \<in> S}. greater_pair a b \<longleftrightarrow> pair_key k b < pair_key k a"
  using assms by (auto simp: greater_pair_def pair_less_def pair_key_def less_prod_def)

lemma heap_min:
  fixes key :: "'e \<Rightarrow> 'k::linorder"
  assumes "heap_upto key (length c) c"
  shows "i < length c \<Longrightarrow> key (c ! 0) \<le> key (c ! i)"
proof (induction i rule: less_induct)
  case (less i)
  show ?case
  proof (cases "i = 0")
    case True then show ?thesis by simp
  next
    case False
    then have i0: "0 < i" by simp
    have p: "(i - 1) div 2 < i" by (rule parent_less [OF i0])
    with less.prems have "(i - 1) div 2 < length c" by linarith
    from less.IH [OF p this] have "key (c ! 0) \<le> key (c ! ((i - 1) div 2))" .
    moreover from assms i0 less.prems have "key (c ! ((i - 1) div 2)) \<le> key (c ! i)"
      unfolding heap_upto_def by blast
    ultimately show ?thesis by (rule order_trans)
  qed
qed

lemma pq_push_correct:
  fixes k :: "'a::ord \<Rightarrow> 'b::linorder"
  assumes emb: "\<forall>x\<in>S. \<forall>y\<in>S. (x < y) = (k x < k y)"
    and heap: "heap_upto (pair_key k) (length c) c"
    and sub: "set c \<subseteq> {p. fst p \<in> S}" and x: "fst x \<in> S"
  shows "heap_upto (pair_key k) (length (pq_push x c)) (pq_push x c) \<and>
         mset (pq_push x c) = add_mset x (mset c)"
proof -
  let ?A = "{p. fst p \<in> S}" and ?key = "pair_key k"
  let ?f = "c @ [x]" and ?len = "Suc (length c)"
  have eq: "pq_push x c = push_heap_impl greater_pair ?f (length c) 0 x"
    by (simp add: pq_push_def push_heap_def)
  have upd: "?f[length c := x] = ?f" by simp
  have up: "up_inv ?key ?len (?f[length c := x]) (length c)"
    unfolding upd up_inv_def
  proof (intro conjI allI impI)
    fix i assume i: "0 < i \<and> i < ?len \<and> i \<noteq> length c"
    then have il: "i < length c" by simp
    with i have pl: "(i - 1) div 2 < length c" using parent_less [of i] by linarith
    from heap i il have "?key (c ! ((i - 1) div 2)) \<le> ?key (c ! i)"
      unfolding heap_upto_def by blast
    with il pl show "?key (?f ! ((i - 1) div 2)) \<le> ?key (?f ! i)" by (simp add: nth_append)
  next
    fix i assume i: "0 < length c \<and> 0 < i \<and> i < ?len \<and> (i - 1) div 2 = length c"
    then have "(i - 1) div 2 < i" using parent_less [of i] by blast
    with i have False by linarith
    then show "?key (?f ! ((length c - 1) div 2)) \<le> ?key (?f ! i)" ..
  qed
  have r: "heap_upto ?key ?len (push_heap_impl greater_pair ?f (length c) 0 x) \<and>
     mset (push_heap_impl greater_pair ?f (length c) 0 x) = mset (?f[length c := x]) \<and>
     drop ?len (push_heap_impl greater_pair ?f (length c) 0 x) = drop ?len ?f"
    by (rule push_heap_impl_correct [OF refl greater_pair_key [OF emb] _ _ _ _ up])
       (use sub x in auto)
  then have m: "mset (pq_push x c) = add_mset x (mset c)" unfolding eq upd by simp
  then have "size (mset (pq_push x c)) = ?len" by simp
  then have "length (pq_push x c) = ?len" by simp
  with r m show ?thesis unfolding eq by simp
qed

lemma pq_pop_correct:
  fixes k :: "'a::ord \<Rightarrow> 'b::linorder"
  assumes emb: "\<forall>x\<in>S. \<forall>y\<in>S. (x < y) = (k x < k y)"
    and heap: "heap_upto (pair_key k) (length c) c"
    and sub: "set c \<subseteq> {p. fst p \<in> S}" and ne: "c \<noteq> []"
  shows "\<exists>c'. pq_pop c = Some c' \<and> heap_upto (pair_key k) (length c') c' \<and>
           add_mset (c ! 0) (mset c') = mset c"
proof (cases "length c > 1")
  case False
  with ne have l: "length c = 1" by (cases c) auto
  then obtain x where c: "c = [x]" by (cases c) auto
  then have "pq_pop c = Some []" by (simp add: pq_pop_def pop_heap_def)
  with c show ?thesis by (simp add: heap_upto_def)
next
  case True
  let ?A = "{p. fst p \<in> S}" and ?key = "pair_key k"
  let ?last = "length c - 1"
  let ?f = "c[?last := c ! 0]" and ?v = "c ! ?last"
  let ?r = "adjust_heap_impl greater_pair ?f 0 ?last ?v"
  have eq: "pq_pop c = Some (butlast ?r)"
    using True ne by (simp add: pq_pop_def pop_heap_def)
  have "c ! 0 \<in> set c" by (rule nth_mem) (use ne in simp)
  moreover have "?v \<in> set c" by (rule nth_mem) (use True ne in simp)
  ultimately have "c ! 0 \<in> set c" "?v \<in> set c" .
  with sub have c0: "c ! 0 \<in> ?A" and cl: "?v \<in> ?A" by blast+
  have subf: "set ?f \<subseteq> ?A"
    using sub c0 set_update_subset_insert [of c ?last "c ! 0"] by blast
  have down: "down_inv ?key ?last ?f 0"
    unfolding down_inv_def
  proof (intro conjI allI impI)
    fix i assume i: "0 < i \<and> i < ?last \<and> i \<noteq> 0 \<and> (i - 1) div 2 \<noteq> 0"
    then have "(i - 1) div 2 < i" using parent_less [of i] by blast
    with i have p: "(i - 1) div 2 < ?last" by linarith
    from i have "0 < i \<and> i < length c" by linarith
    with heap have "?key (c ! ((i - 1) div 2)) \<le> ?key (c ! i)"
      unfolding heap_upto_def by blast
    with i p show "?key (?f ! ((i - 1) div 2)) \<le> ?key (?f ! i)" by simp
  next
    fix i assume "(0::nat) < 0 \<and> 0 < i \<and> i < ?last \<and> (i - 1) div 2 = 0"
    then show "?key (?f ! ((0 - 1) div 2)) \<le> ?key (?f ! i)" by simp
  qed
  have r: "heap_upto ?key ?last ?r \<and> mset ?r = mset (?f[0 := ?v]) \<and> drop ?last ?r = drop ?last ?f"
    by (rule adjust_heap_impl_correct [OF greater_pair_key [OF emb] _ _ subf cl down])
       (use True ne in simp_all)
  have sw: "mset (?f[0 := ?v]) = mset c"
  proof -
    have "?f[0 := ?v] = c[?last := c ! 0, 0 := c ! ?last]" by simp
    moreover have "mset (c[?last := c ! 0, 0 := c ! ?last]) = mset c"
      using True ne by (intro mset_swap) simp_all
    ultimately show ?thesis by simp
  qed
  from r sw have mr: "mset ?r = mset c" by simp
  then have "size (mset ?r) = size (mset c)" by simp
  then have lr: "length ?r = length c" by simp
  have "drop ?last ?f = [c ! 0]"
  proof -
    have "drop ?last ?f = ?f ! ?last # drop (Suc ?last) ?f"
      using True by (intro Cons_nth_drop_Suc [symmetric]) simp
    then show ?thesis using True by simp
  qed
  with r have dr: "drop ?last ?r = [c ! 0]" by simp
  have "?r = take ?last ?r @ drop ?last ?r" by simp
  with dr have split: "?r = take ?last ?r @ [c ! 0]" by simp
  have bl: "butlast ?r = take ?last ?r" using lr by (simp add: butlast_conv_take)
  have "mset ?r = add_mset (c ! 0) (mset (take ?last ?r))"
    by (subst split) simp
  with mr bl have m: "add_mset (c ! 0) (mset (butlast ?r)) = mset c" by simp
  have lb: "length (butlast ?r) = ?last" using lr by simp
  have "heap_upto ?key ?last (butlast ?r)"
    unfolding heap_upto_def
  proof (intro allI impI)
    fix i assume i: "0 < i \<and> i < ?last"
    then have "(i - 1) div 2 < i" using parent_less [of i] by blast
    with i have p: "(i - 1) div 2 < ?last" by linarith
    from r i have "?key (?r ! ((i - 1) div 2)) \<le> ?key (?r ! i)" unfolding heap_upto_def by blast
    with i p lb show "?key (butlast ?r ! ((i - 1) div 2)) \<le> ?key (butlast ?r ! i)"
      by (simp add: nth_butlast)
  qed
  with eq m lb show ?thesis by simp
qed

lemma sort_push:
  fixes key :: "'e \<Rightarrow> 'k::linorder"
  assumes "mset c' = add_mset x (mset c)"
  shows "sort (map key c') = insort (key x) (sort (map key c))"
proof (rule properties_for_sort)
  have "mset (map key c') = image_mset key (mset c')" by simp
  also have "\<dots> = add_mset (key x) (image_mset key (mset c))" using assms by simp
  finally show "mset (insort (key x) (sort (map key c))) = mset (map key c')" by simp
  show "sorted (insort (key x) (sort (map key c)))" by (simp add: sorted_insort)
qed

lemma sort_pop:
  fixes key :: "'e \<Rightarrow> 'k::linorder"
  assumes heap: "heap_upto key (length c) c" and m: "add_mset (c ! 0) (mset c') = mset c"
  shows "sort (map key c) = key (c ! 0) # sort (map key c')"
proof (rule properties_for_sort)
  have "mset (map key c) = image_mset key (mset c)" by simp
  also have "\<dots> = add_mset (key (c ! 0)) (image_mset key (mset c'))"
    using m [symmetric] by simp
  finally show "mset (key (c ! 0) # sort (map key c')) = mset (map key c)" by simp
  have "key (c ! 0) \<le> y" if "y \<in> set (sort (map key c'))" for y
  proof -
    from that obtain p where p: "p \<in> set c'" "y = key p" by auto
    then have "p \<in># mset c" using m by (metis in_multiset_in_set insert_iff set_mset_add_mset_insert)
    then have "p \<in> set c" by simp
    then obtain i where "i < length c" "c ! i = p" by (auto simp: in_set_conv_nth)
    with heap_min [OF heap, of i] p show ?thesis by simp
  qed
  then show "sorted (key (c ! 0) # sort (map key c'))" by simp
qed


section \<open>Correctness of the top-K reducer\<close>

text \<open>
  On a score vector whose \<^verbatim>\<open><\<close> agrees with a linear order of keys, each step of
  the scan keeps the invariant, and the drain empties the heap in ascending order
  of keys, filling the result from its end.
\<close>

lemma heap_inv_sub:
  assumes "heap_inv k K H i h" "i \<le> length H"
  shows "set h \<subseteq> {p. fst p \<in> set H}"
proof
  fix p assume "p \<in> set h"
  with assms(1) have "snd p < i" "fst p = H ! snd p" unfolding heap_inv_def by blast+
  with assms(2) show "p \<in> {p. fst p \<in> set H}" by simp
qed

lemma topKStep_heap_inv:
  fixes k :: "'a::ord \<Rightarrow> 'b::linorder"
  assumes emb: "\<forall>x\<in>set H. \<forall>y\<in>set H. (x < y) = (k x < k y)"
    and inv: "heap_inv k K H i h" and i: "i < length H" and K: "1 \<le> K"
  shows "\<exists>h'. topKStep K (H ! i) i h = Some h' \<and> heap_inv k K H (Suc i) h'"
proof -
  let ?key = "pair_key k" and ?x = "(H ! i, i)" and ?Hk = "map k H"
  let ?q = "sort (map ?key h)"
  from inv have heap: "heap_upto ?key (length h) h"
    and bound: "\<forall>p\<in>set h. snd p < i \<and> fst p = H ! snd p"
    and tinv: "topK_inv K ?Hk i ?q"
    unfolding heap_inv_def by blast+
  from heap_inv_sub [OF inv] i have sub: "set h \<subseteq> {p. fst p \<in> set H}" by simp
  have xS: "fst ?x \<in> set H" using i by simp
  have kx: "?key ?x = (?Hk ! i, i)" using i by (simp add: pair_key_def)
  have lq: "length ?q = length h" by simp
  have bound_ins: "\<forall>p\<in>set c'. snd p < Suc i \<and> fst p = H ! snd p"
    if "mset c' = add_mset ?x (mset c)" "set c \<subseteq> set h" for c c'
  proof
    fix p assume "p \<in> set c'"
    then have "p \<in># mset c'" by simp
    with that(1) have "p = ?x \<or> p \<in> set c" by auto
    with that(2) bound show "snd p < Suc i \<and> fst p = H ! snd p" by (auto simp: less_Suc_eq)
  qed
  show ?thesis
  proof (cases "length h < K")
    case True
    let ?h' = "pq_push ?x h"
    from pq_push_correct [OF emb heap sub xS]
    have h': "heap_upto ?key (length ?h') ?h'" and m: "mset ?h' = add_mset ?x (mset h)" by blast+
    have "sort (map ?key ?h') = insort (?Hk ! i, i) ?q"
      using sort_push [OF m, of ?key] kx by simp
    moreover have "topK_inv K ?Hk (Suc i) (insort (?Hk ! i, i) ?q)"
      by (rule inv_push [OF tinv]) (simp add: True)
    ultimately have "heap_inv k K H (Suc i) ?h'"
      unfolding heap_inv_def using h' bound_ins [OF m] by simp
    moreover have "topKStep K (H ! i) i h = Some ?h'" using True by (simp add: topKStep_def)
    ultimately show ?thesis by blast
  next
    case False
    with K have ne: "h \<noteq> []" by auto
    then have top: "pq_top h = Some (h ! 0)" by (simp add: pq_top_def)
    from pq_pop_correct [OF emb heap sub ne] obtain c'
      where pop: "pq_pop h = Some c'" and hc: "heap_upto ?key (length c') c'"
        and mc: "add_mset (h ! 0) (mset c') = mset h" by blast
    have q: "?q = ?key (h ! 0) # sort (map ?key c')" by (rule sort_pop [OF heap mc])
    have "set_mset (mset c') \<subseteq> set_mset (mset h)" unfolding mc [symmetric] by auto
    then have subc: "set c' \<subseteq> set h" by simp
    have h0: "h ! 0 \<in> set h" by (rule nth_mem) (use ne in simp)
    with sub have "fst (h ! 0) \<in> set H" by blast
    with emb xS have cond: "fst (h ! 0) < H ! i \<longleftrightarrow> fst (?key (h ! 0)) < ?Hk ! i"
      using i by (simp add: pair_key_def)
    have nl: "\<not> length (?key (h ! 0) # sort (map ?key c')) < K"
      using False lq unfolding q by simp
    show ?thesis
    proof (cases "fst (h ! 0) < H ! i")
      case True
      let ?h' = "pq_push ?x c'"
      from pq_push_correct [OF emb hc _ xS] subc sub
      have h': "heap_upto ?key (length ?h') ?h'" and m: "mset ?h' = add_mset ?x (mset c')" by blast+
      have "sort (map ?key ?h') = insort (?Hk ! i, i) (sort (map ?key c'))"
        using sort_push [OF m, of ?key] kx by simp
      moreover have "topK_inv K ?Hk (Suc i) (insort (?Hk ! i, i) (sort (map ?key c')))"
        by (rule inv_replace [OF tinv [unfolded q] nl]) (use True cond in simp)
      ultimately have "heap_inv k K H (Suc i) ?h'"
        unfolding heap_inv_def using h' bound_ins [OF m subc] by simp
      moreover have "topKStep K (H ! i) i h = Some ?h'"
        using False True top pop by (simp add: topKStep_def)
      ultimately show ?thesis by blast
    next
      case ge: False
      have "topK_inv K ?Hk (Suc i) (?key (h ! 0) # sort (map ?key c'))"
        by (rule inv_skip [OF tinv [unfolded q] nl]) (use ge cond in simp)
      then have "heap_inv k K H (Suc i) h"
        unfolding heap_inv_def q [symmetric] using heap bound by (auto simp: less_Suc_eq)
      moreover have "topKStep K (H ! i) i h = Some h"
        using False ge top by (simp add: topKStep_def)
      ultimately show ?thesis by blast
    qed
  qed
qed

lemma topKLoop_heap_inv:
  fixes k :: "'a::ord \<Rightarrow> 'b::linorder"
  shows "\<forall>x\<in>set H. \<forall>y\<in>set H. (x < y) = (k x < k y) \<Longrightarrow> 1 \<le> K \<Longrightarrow>
   heap_inv k K H i h \<Longrightarrow> i \<le> length H \<Longrightarrow>
   \<exists>h'. topKLoop K H i h = Some h' \<and> heap_inv k K H (length H) h'"
proof (induction K H i h rule: topKLoop.induct)
  case (1 K H i h)
  show ?case
  proof (cases "i < length H")
    case True
    from topKStep_heap_inv [OF "1.prems"(1,3) True "1.prems"(2)] obtain h1
      where s: "topKStep K (H ! i) i h = Some h1" and inv1: "heap_inv k K H (Suc i) h1" by blast
    from "1.IH" [OF True s "1.prems"(1,2) inv1] True obtain h'
      where "topKLoop K H (Suc i) h1 = Some h'" "heap_inv k K H (length H) h'" by auto
    with True s show ?thesis by (subst topKLoop.simps) simp
  next
    case False
    with "1.prems" have "i = length H" by simp
    with "1.prems"(3) show ?thesis by (subst topKLoop.simps) simp
  qed
qed

lemma drainQueue_heap:
  fixes k :: "'a::ord \<Rightarrow> 'b::linorder"
  shows "\<forall>x\<in>S. \<forall>y\<in>S. (x < y) = (k x < k y) \<Longrightarrow>
   i \<le> K \<Longrightarrow> length h = K - i \<Longrightarrow> length res = K \<Longrightarrow>
   heap_upto (pair_key k) (length h) h \<Longrightarrow> set h \<subseteq> {p. fst p \<in> S} \<Longrightarrow>
   \<exists>ps. drainQueue K i h res = Some (rev ps @ drop (K - i) res) \<and>
        map (pair_key k) ps = sort (map (pair_key k) h) \<and> mset ps = mset h"
proof (induction K i h res rule: drainQueue.induct)
  case (1 K i h res)
  note emb = "1.prems"(1) and heap = "1.prems"(5) and sub = "1.prems"(6)
  let ?key = "pair_key k"
  show ?case
  proof (cases "i < K")
    case False
    with "1.prems" have "h = []" by simp
    moreover from False "1.prems" have "drainQueue K i h res = Some res"
      by (subst drainQueue.simps) simp
    ultimately show ?thesis using False by simp
  next
    case True
    with "1.prems" have ne: "h \<noteq> []" by auto
    then have top: "pq_top h = Some (h ! 0)" by (simp add: pq_top_def)
    from pq_pop_correct [OF emb heap sub ne] obtain c'
      where pop: "pq_pop h = Some c'" and hc: "heap_upto ?key (length c') c'"
        and mc: "add_mset (h ! 0) (mset c') = mset h" by blast
    have q: "sort (map ?key h) = ?key (h ! 0) # sort (map ?key c')" by (rule sort_pop [OF heap mc])
    have "set_mset (mset c') \<subseteq> set_mset (mset h)" unfolding mc [symmetric] by auto
    then have subc: "set c' \<subseteq> {p. fst p \<in> S}" using sub by auto
    from mc have "size (mset h) = Suc (size (mset c'))" by (metis size_add_mset)
    then have lc: "length c' = K - Suc i" using "1.prems"(3) by simp
    let ?res' = "res[K - i - 1 := h ! 0]"
    from "1.IH" [OF True top pop emb _ lc _ hc subc] True "1.prems"(4) obtain ps
      where d: "drainQueue K (Suc i) c' ?res' = Some (rev ps @ drop (K - Suc i) ?res')"
        and kp: "map ?key ps = sort (map ?key c')" and mp: "mset ps = mset c'"
      by auto
    have "drop (K - Suc i) ?res' = h ! 0 # drop (K - i) res"
    proof -
      have lt: "K - Suc i < length res" using True "1.prems" by simp
      have "drop (K - Suc i) (res[K - Suc i := h ! 0]) = h ! 0 # drop (Suc (K - Suc i)) res"
        using lt by (rule drop_update_here)
      also have "\<dots> = h ! 0 # drop (K - i) res" using True by (simp add: Suc_diff_Suc)
      finally show ?thesis by simp
    qed
    with d have "drainQueue K i h res = Some (rev (h ! 0 # ps) @ drop (K - i) res)"
      using True top pop by (subst drainQueue.simps) simp
    moreover have "map ?key (h ! 0 # ps) = sort (map ?key h)" using kp q by simp
    moreover have "mset (h ! 0 # ps) = mset h" using mp mc by simp
    ultimately show ?thesis by blast
  qed
qed

lemma getTopKPairs_heap:
  fixes k :: "'a::{ord,zero} \<Rightarrow> 'b::linorder"
  assumes emb: "\<forall>x\<in>set H. \<forall>y\<in>set H. (x < y) = (k x < k y)" and K: "1 \<le> K" "K \<le> length H"
  shows "\<exists>ps. getTopKPairs K H = Some (rev ps) \<and>
          (\<forall>p\<in>set ps. snd p < length H \<and> fst p = H ! snd p) \<and>
          topK_inv K (map k H) (length H) (map (pair_key k) ps)"
proof -
  have "heap_inv k K H 0 []" by (simp add: heap_inv_def heap_upto_def inv_init)
  from topKLoop_heap_inv [OF emb K(1) this] obtain h
    where l: "topKLoop K H 0 [] = Some h" and inv: "heap_inv k K H (length H) h" by auto
  from inv have heap: "heap_upto (pair_key k) (length h) h"
    and bound: "\<forall>p\<in>set h. snd p < length H \<and> fst p = H ! snd p"
    and tinv: "topK_inv K (map k H) (length H) (sort (map (pair_key k) h))"
    unfolding heap_inv_def by blast+
  from tinv K(2) have "length (sort (map (pair_key k) h)) = K" by (simp add: topK_inv_def)
  then have len: "length h = K" by simp
  from heap_inv_sub [OF inv] have sub: "set h \<subseteq> {p. fst p \<in> set H}" by simp
  from drainQueue_heap [OF emb _ _ _ heap sub, of 0 K "replicate K (0, 0)"] len obtain ps
    where d: "drainQueue K 0 h (replicate K (0, 0)) = Some (rev ps @ drop (K - 0) (replicate K (0, 0)))"
      and kp: "map (pair_key k) ps = sort (map (pair_key k) h)" and mp: "mset ps = mset h"
    by auto
  from d have "getTopKPairs K H = Some (rev ps)"
    using K(2) l by (simp add: getTopKPairs_def)
  moreover from mp have "set ps = set h" by (rule mset_eq_setD)
  ultimately show ?thesis using bound tinv kp by auto
qed

text \<open>Floats without NaN are ordered as their values are.\<close>

lemma float_less_iff: "x \<noteq> NaN \<Longrightarrow> y \<noteq> NaN \<Longrightarrow> x < y \<longleftrightarrow> the_val x < the_val y"
  by (cases x; cases y) (simp_all add: less_float_def the_val_def)

lemma float_le_iff: "x \<noteq> NaN \<Longrightarrow> y \<noteq> NaN \<Longrightarrow> x \<le> y \<longleftrightarrow> the_val x \<le> the_val y"
  by (cases x; cases y) (simp_all add: less_eq_float_def the_val_def)

lemma float_eq_iff: "x \<noteq> NaN \<Longrightarrow> y \<noteq> NaN \<Longrightarrow> x = y \<longleftrightarrow> the_val x = the_val y"
  by (cases x; cases y) (simp_all add: the_val_def)

lemma float_emb:
  "NaN \<notin> set H \<Longrightarrow> \<forall>x\<in>set H. \<forall>y\<in>set H. (x < y) = (the_val x < the_val y)"
  by (metis float_less_iff)

lemma getTopKPairs_float:
  fixes H :: "'a::{linorder,zero} float list"
  assumes "NaN \<notin> set H" "1 \<le> K" "K \<le> length H"
  shows "\<exists>ps. getTopKPairs K H = Some (rev ps) \<and>
          (\<forall>p\<in>set ps. snd p < length H \<and> fst p = H ! snd p \<and> fst p \<noteq> NaN) \<and>
          topK_inv K (map the_val H) (length H) (map (pair_key the_val) ps)"
proof -
  from getTopKPairs_heap [OF float_emb [OF assms(1)] assms(2,3)] obtain ps
    where r: "getTopKPairs K H = Some (rev ps)"
      and b: "\<forall>p\<in>set ps. snd p < length H \<and> fst p = H ! snd p"
      and t: "topK_inv K (map the_val H) (length H) (map (pair_key the_val) ps)" by blast
  have "fst p \<noteq> NaN" if "p \<in> set ps" for p
  proof -
    from b that have "fst p \<in> set H" by simp
    with assms(1) show ?thesis by metis
  qed
  with r b t show ?thesis by blast
qed

text \<open>
  Claim C1, as amended.  For a score vector \<open>H\<close> without NaN and
  \<open>1 \<le> K \<le> length H\<close>, \<open>getTopKPairs\<close> returns exactly \<open>K\<close> pairs \<open>(H ! i, i)\<close>
  with pairwise distinct valid indices, and no entry that is not selected scores
  more than a selected one.  An entry that arrives when \<open>K\<close> entries are held
  displaces one only if it scores strictly more than the least held score: whenever
  an entry \<open>a\<close> that is not selected ties with a selected entry \<open>b\<close> of higher
  index, some entry after \<open>b\<close> scores strictly more than both.
\<close>

theorem getTopKPairs_selects:
  fixes H :: "'a::{linorder,zero} float list"
  assumes "NaN \<notin> set H" "1 \<le> K" "K \<le> length H"
  shows "\<exists>res. getTopKPairs K H = Some res \<and> length res = K \<and> distinct (map snd res) \<and>
     (\<forall>p\<in>set res. snd p < length H \<and> fst p = H ! snd p) \<and>
     (\<forall>j<length H. j \<notin> snd ` set res \<longrightarrow> (\<forall>p\<in>set res. H ! j \<le> fst p)) \<and>
     (\<forall>a b. a < b \<and> b < length H \<and> a \<notin> snd ` set res \<and> b \<in> snd ` set res \<and> H ! a = H ! b
        \<longrightarrow> (\<exists>t. b < t \<and> t < length H \<and> H ! b < H ! t))"
proof -
  let ?Hk = "map the_val H" and ?key = "pair_key the_val"
  from getTopKPairs_float [OF assms] obtain ps
    where r: "getTopKPairs K H = Some (rev ps)"
      and b: "\<forall>p\<in>set ps. snd p < length H \<and> fst p = H ! snd p \<and> fst p \<noteq> NaN"
      and inv: "topK_inv K ?Hk (length H) (map ?key ps)" by blast
  let ?q = "map ?key ps"
  have nn: "\<And>j. j < length H \<Longrightarrow> H ! j \<noteq> NaN" using assms(1) by (metis nth_mem)
  have sndq: "snd ` set ?q = snd ` set ps" by (force simp: pair_key_def)
  have sel: "\<And>j. (?Hk ! j, j) \<in> set ?q \<longleftrightarrow> j \<in> snd ` set ps"
    using inv_selected_iff [OF inv] sndq by simp
  from inv assms(3) have "length ?q = K" by (simp add: topK_inv_def)
  then have 1: "length (rev ps) = K" by simp
  have "distinct (map snd ?q)" by (rule inv_distinct_snd [OF inv])
  moreover have ms: "map snd ?q = map snd ps" by (simp add: pair_key_def)
  ultimately have "distinct (map snd ps)" by (simp only:)
  then have 2: "distinct (map snd (rev ps))" by (simp add: rev_map [symmetric])
  have 3: "\<forall>p\<in>set (rev ps). snd p < length H \<and> fst p = H ! snd p" using b by simp
  from inv have low: "\<forall>j<length H. (?Hk ! j, j) \<notin> set ?q \<longrightarrow> (\<forall>p\<in>set ?q. ?Hk ! j \<le> fst p)"
    and tie: "\<forall>a b. a < b \<and> b < length H \<and> (?Hk ! a, a) \<notin> set ?q \<and> (?Hk ! b, b) \<in> set ?q \<and>
                ?Hk ! a = ?Hk ! b \<longrightarrow> (\<exists>t. b < t \<and> t < length H \<and> ?Hk ! b < ?Hk ! t)"
    unfolding topK_inv_def by blast+
  have 4: "\<forall>j<length H. j \<notin> snd ` set (rev ps) \<longrightarrow> (\<forall>p\<in>set (rev ps). H ! j \<le> fst p)"
  proof (intro allI impI ballI)
    fix j p assume j: "j < length H" "j \<notin> snd ` set (rev ps)" and p: "p \<in> set (rev ps)"
    from j(2) have "j \<notin> snd ` set ps" by simp
    with sel have "(?Hk ! j, j) \<notin> set ?q" by blast
    moreover from p have "?key p \<in> set ?q" by simp
    ultimately have "?Hk ! j \<le> fst (?key p)" using low j(1) by blast
    then have "the_val (H ! j) \<le> the_val (fst p)" using j(1) by (simp add: pair_key_def)
    moreover from p have "p \<in> set ps" by simp
    with b have "fst p \<noteq> NaN" by blast
    ultimately show "H ! j \<le> fst p" using nn [OF j(1)] \<open>fst p \<noteq> NaN\<close> by (simp add: float_le_iff)
  qed
  have 5: "\<forall>a b. a < b \<and> b < length H \<and> a \<notin> snd ` set (rev ps) \<and> b \<in> snd ` set (rev ps) \<and> H ! a = H ! b
        \<longrightarrow> (\<exists>t. b < t \<and> t < length H \<and> H ! b < H ! t)"
  proof (intro allI impI)
    fix a c assume h: "a < c \<and> c < length H \<and> a \<notin> snd ` set (rev ps) \<and> c \<in> snd ` set (rev ps) \<and> H ! a = H ! c"
    then have "a \<notin> snd ` set ps" "c \<in> snd ` set ps" "a < length H" by simp_all
    with sel have "(?Hk ! a, a) \<notin> set ?q" "(?Hk ! c, c) \<in> set ?q" by blast+
    moreover from h \<open>a < length H\<close> have "?Hk ! a = ?Hk ! c" by simp
    ultimately have "a < c \<and> c < length H \<and> (?Hk ! a, a) \<notin> set ?q \<and> (?Hk ! c, c) \<in> set ?q \<and> ?Hk ! a = ?Hk ! c"
      using h by blast
    with tie obtain t where t: "c < t" "t < length H" "?Hk ! c < ?Hk ! t" by blast
    with h have "the_val (H ! c) < the_val (H ! t)" by simp
    with nn [of c] nn [of t] h t have "H ! c < H ! t" by (simp add: float_less_iff)
    with t show "\<exists>t. c < t \<and> t < length H \<and> H ! c < H ! t" by blast
  qed
  from r 1 2 3 4 5 show ?thesis by blast
qed

text \<open>Claim C1: the amended statement at \<open>K = 2\<close> and the scores \<open>[0.5, 0.5, 0.9]\<close>.\<close>

theorem getTopKPairs_selects_witness:
  "NaN \<notin> set [Val 0.5, Val 0.5, Val (0.9 :: real)] \<and>
   (1::nat) \<le> 2 \<and> 2 \<le> length [Val 0.5, Val 0.5, Val (0.9 :: real)] \<and>
   (\<exists>res. getTopKPairs 2 [Val 0.5, Val 0.5, Val (0.9 :: real)] = Some res \<and> length res = 2 \<and>
      distinct (map snd res))"
  using getTopKPairs_selects [of "[Val 0.5, Val 0.5, Val (0.9 :: real)]" 2] by auto

text \<open>
  Claim C1 as first stated fails: for the scores \<open>[0.5, 0.5, 0.9]\<close> and \<open>K = 2\<close> the
  entries at indices 0 and 1 tie, and the one kept is the later one, index 1; the
  entry evaluated first, index 0, is not selected.  And it fails for a vector with
  NaN: for \<open>[NaN, 1, 2]\<close> and \<open>K = 2\<close> the pairs selected are those of 1 and of NaN,
  while 2, the highest score, is not selected.
\<close>

theorem getTopKPairs_first_seen_counterexample:
  "getTopKPairs 2 [Val 0.5, Val 0.5, Val (0.9 :: real)] = Some [(Val 0.9, 2), (Val 0.5, 1)] \<and>
   [Val 0.5, Val 0.5, Val (0.9 :: real)] ! 0 = [Val 0.5, Val 0.5, Val 0.9] ! 1 \<and>
   (1::nat) \<in> snd ` set [(Val (0.9 :: real), 2), (Val 0.5, 1)] \<and>
   (0::nat) \<notin> snd ` set [(Val (0.9 :: real), 2), (Val 0.5, 1)] \<and>
   getTopKPairs 2 [NaN, Val 1, Val (2 :: real)] = Some [(Val 1, 1), (NaN, 0)]"
  by code_simp

text \<open>
  Claim C2, as amended.  For a score vector without NaN and
  \<open>1 \<le> K \<le> length H\<close> the \<open>K\<close> returned pairs are in strictly descending
  lexicographic order of (score, index): scores never increase along the result,
  and pairs of equal score come highest index first.  For the scores
  \<open>[0.1, 0.9, 0.4, 0.9]\<close> and \<open>K = 2\<close> the result is \<open>[(0.9, 3), (0.9, 1)]\<close>.
\<close>

theorem getTopKPairs_order:
  fixes H :: "'a::{linorder,zero} float list"
  shows "(NaN \<notin> set H \<and> 1 \<le> K \<and> K \<le> length H \<longrightarrow>
     (\<exists>res. getTopKPairs K H = Some res \<and> length res = K \<and>
        (\<forall>m n. m < n \<and> n < K \<longrightarrow>
           fst (res ! n) < fst (res ! m) \<or>
           (fst (res ! n) = fst (res ! m) \<and> snd (res ! n) < snd (res ! m))))) \<and>
   getTopKPairs 2 [Val 0.1, Val 0.9, Val 0.4, Val (0.9 :: real)] = Some [(Val 0.9, 3), (Val 0.9, 1)]"
proof (intro conjI impI)
  let ?key = "pair_key the_val"
  assume a: "NaN \<notin> set H \<and> 1 \<le> K \<and> K \<le> length H"
  then obtain ps
    where r: "getTopKPairs K H = Some (rev ps)"
      and b: "\<forall>p\<in>set ps. snd p < length H \<and> fst p = H ! snd p \<and> fst p \<noteq> NaN"
      and inv: "topK_inv K (map the_val H) (length H) (map ?key ps)"
    using getTopKPairs_float [of H K] by blast
  let ?res = "rev ps"
  from inv a have "length (map ?key ps) = K" by (simp add: topK_inv_def)
  then have len: "length ?res = K" by simp
  from inv have "sorted (map ?key ps)" "distinct (map ?key ps)" unfolding topK_inv_def by blast+
  then have "sorted_wrt (<) (map ?key ps)" by (simp add: strict_sorted_iff)
  then have "sorted_wrt (\<lambda>x y. y < x) (rev (map ?key ps))" by (simp add: sorted_wrt_rev)
  then have "sorted_wrt (\<lambda>x y. y < x) (map ?key ?res)" by (simp add: rev_map)
  then have lt: "\<forall>m n. m < n \<and> n < K \<longrightarrow> ?key (?res ! n) < ?key (?res ! m)"
    using len by (simp add: sorted_wrt_iff_nth_less)
  have "fst (?res ! n) < fst (?res ! m) \<or>
        (fst (?res ! n) = fst (?res ! m) \<and> snd (?res ! n) < snd (?res ! m))"
    if mn: "m < n" "n < K" for m n
  proof -
    from mn len have "?res ! n \<in> set ps" "?res ! m \<in> set ps"
      by (metis nth_mem set_rev, metis less_trans nth_mem set_rev)
    with b have nn: "fst (?res ! n) \<noteq> NaN" "fst (?res ! m) \<noteq> NaN" by blast+
    from lt mn have "?key (?res ! n) < ?key (?res ! m)" by blast
    then have "the_val (fst (?res ! n)) < the_val (fst (?res ! m)) \<or>
       (the_val (fst (?res ! n)) = the_val (fst (?res ! m)) \<and> snd (?res ! n) < snd (?res ! m))"
      by (simp add: less_pair_iff pair_key_def)
    then show ?thesis using nn by (simp add: float_less_iff float_eq_iff)
  qed
  with r len show "\<exists>res. getTopKPairs K H = Some res \<and> length res = K \<and>
        (\<forall>m n. m < n \<and> n < K \<longrightarrow>
           fst (res ! n) < fst (res ! m) \<or>
           (fst (res ! n) = fst (res ! m) \<and> snd (res ! n) < snd (res ! m)))" by blast
next
  show "getTopKPairs 2 [Val 0.1, Val 0.9, Val 0.4, Val (0.9 :: real)] = Some [(Val 0.9, 3), (Val 0.9, 1)]"
    by code_simp
qed

text \<open>Claim C2: the amended statement at \<open>K = 2\<close> and the scores \<open>[0.1, 0.9, 0.4, 0.9]\<close>.\<close>

theorem getTopKPairs_order_witness:
  "NaN \<notin> set [Val 0.1, Val 0.9, Val 0.4, Val (0.9 :: real)] \<and>
   (1::nat) \<le> 2 \<and> 2 \<le> length [Val 0.1, Val 0.9, Val 0.4, Val (0.9 :: real)] \<and>
   (\<exists>res. getTopKPairs 2 [Val 0.1, Val 0.9, Val 0.4, Val (0.9 :: real)] = Some res \<and> length res = 2 \<and>
      (fst (res ! 1) < fst (res ! 0) \<or>
       (fst (res ! 1) = fst (res ! 0) \<and> snd (res ! 1) < snd (res ! 0))))"
  using getTopKPairs_order [of "[Val 0.1, Val 0.9, Val 0.4, Val (0.9 :: real)]" 2] by auto

text \<open>
  Claim C2 as first stated fails: for the scores \<open>[0.1, 0.9, 0.4, 0.9]\<close> and \<open>K = 2\<close>
  the result is not \<open>[(0.9, 1), (0.9, 3)]\<close>; the two pairs tie and the later index
  comes first.  And it fails for a vector with NaN: for \<open>[2, NaN, 1]\<close> and \<open>K = 3\<close>
  the result begins with the pair of NaN, then 2, then 1.
\<close>

theorem getTopKPairs_tie_order_counterexample:
  "getTopKPairs 2 [Val 0.1, Val 0.9, Val 0.4, Val (0.9 :: real)] \<noteq> Some [(Val 0.9, 1), (Val 0.9, 3)] \<and>
   getTopKPairs 2 [Val 0.1, Val 0.9, Val 0.4, Val (0.9 :: real)] = Some [(Val 0.9, 3), (Val 0.9, 1)] \<and>
   getTopKPairs 3 [Val 2, NaN, Val (1 :: real)] = Some [(NaN, 1), (Val 2, 0), (Val 1, 2)]"
  by code_simp


section \<open>The next mini-batch\<close>

text \<open>
  The copying loop appends the slice \<open>[index, endIndex)\<close> of the total list, when
  that slice lies inside the list.
\<close>

lemma copyMiniBatch_take:
  "i \<le> e \<Longrightarrow> e \<le> length xs \<Longrightarrow>
   copyMiniBatch acc xs i e = Some (acc @ take (e - i) (drop i xs))"
proof (induction acc xs i e rule: copyMiniBatch.induct)
  case (1 imageList totalImageList index endIndex)
  show ?case
  proof (cases "index < endIndex")
    case False
    with "1.prems" show ?thesis by (subst copyMiniBatch.simps) simp
  next
    case True
    with "1.prems" have lt: "index < length totalImageList" by simp
    from True have e: "endIndex - index = Suc (endIndex - Suc index)" by simp
    have "copyMiniBatch (imageList @ [totalImageList ! index]) totalImageList (Suc index) endIndex =
          Some ((imageList @ [totalImageList ! index]) @
                take (endIndex - Suc index) (drop (Suc index) totalImageList))"
      using "1.IH" [OF True lt] True "1.prems" by simp
    moreover have "take (endIndex - index) (drop index totalImageList) =
          totalImageList ! index # take (endIndex - Suc index) (drop (Suc index) totalImageList)"
      unfolding e using lt by (simp add: Cons_nth_drop_Suc [symmetric])
    ultimately show ?thesis using True lt by (subst copyMiniBatch.simps) simp
  qed
qed

lemma take_drop_nth: "i + n \<le> length xs \<Longrightarrow> take n (drop i xs) = map ((!) xs) [i..<i + n]"
  by (auto simp: list_eq_iff_nth_eq)

text \<open>
  Claim C9.  When \<open>miniBatchIndex \<ge> miniBatchLimit\<close>, \<open>getNextMiniBatch\<close> returns
  false and leaves \<open>imageList\<close> and \<open>miniBatchIndex\<close> as they were.  Otherwise, the
  positions \<open>[miniBatchIndex, miniBatchIndex + miniBatchSize)\<close> lying inside
  \<open>totalImageList\<close>, it returns true, \<open>imageList\<close> becomes exactly the filenames at
  those positions, in order, and \<open>miniBatchIndex\<close> grows by \<open>miniBatchSize\<close>.
\<close>

theorem getNextMiniBatch_spec:
  "(limit \<le> i \<longrightarrow> getNextMiniBatch imageList totalImageList i n limit = Some (False, imageList, i)) \<and>
   (i < limit \<and> i + n \<le> length totalImageList \<longrightarrow>
      getNextMiniBatch imageList totalImageList i n limit =
        Some (True, map (\<lambda>k. totalImageList ! k) [i..<i + n], i + n))"
proof (intro conjI impI)
  assume "limit \<le> i"
  then show "getNextMiniBatch imageList totalImageList i n limit = Some (False, imageList, i)"
    by (simp add: getNextMiniBatch_def)
next
  assume a: "i < limit \<and> i + n \<le> length totalImageList"
  then have "copyMiniBatch [] totalImageList i (i + n) = Some ([] @ take (i + n - i) (drop i totalImageList))"
    by (intro copyMiniBatch_take) simp_all
  with a show "getNextMiniBatch imageList totalImageList i n limit =
        Some (True, map (\<lambda>k. totalImageList ! k) [i..<i + n], i + n)"
    by (simp add: getNextMiniBatch_def take_drop_nth)
qed

text \<open>
  Claim C9 on four filenames with mini-batches of two: at index 4 with limit 4 nothing
  changes; at index 2 the batch is the third and fourth filename.
\<close>

theorem getNextMiniBatch_spec_witness:
  "(4::nat) \<le> 4 \<and> getNextMiniBatch [''x''] [''a'', ''b'', ''c'', ''d''] 4 2 4 = Some (False, [''x''], 4) \<and>
   (2::nat) < 4 \<and> 2 + 2 \<le> length [''a'', ''b'', ''c'', ''d''] \<and>
   getNextMiniBatch [''x''] [''a'', ''b'', ''c'', ''d''] 2 2 4 = Some (True, [''c'', ''d''], 4)"
  using getNextMiniBatch_spec [of 4 4 "[''x'']" "[''a'', ''b'', ''c'', ''d'']" 2]
    getNextMiniBatch_spec [of 4 2 "[''x'']" "[''a'', ''b'', ''c'', ''d'']" 2]
  by (simp add: upt_rec)

section \<open>Run identifiers of the device manager\<close>

text \<open>
  Serving requests never lowers the counter, and the identifiers handed out lie
  between its old and its new value, in increasing order.
\<close>

lemma serveAll_ids:
  "serveAll dm rs = (ids, dm') \<Longrightarrow>
   sorted_wrt (<) ids \<and> (\<forall>x\<in>set ids. nextIdentifier dm \<le> x \<and> x < nextIdentifier dm') \<and>
   nextIdentifier dm \<le> nextIdentifier dm'"
proof (induction rs arbitrary: dm ids dm')
  case Nil
  then show ?case by simp
next
  case (Cons r rs)
  obtain ids1 dm1 where s: "serve dm r = (ids1, dm1)" by (cases "serve dm r")
  obtain ids2 dm2 where a: "serveAll dm1 rs = (ids2, dm2)" by (cases "serveAll dm1 rs")
  from Cons.prems s a have eq: "ids = ids1 @ ids2" "dm' = dm2" by simp_all
  have one: "(ids1 = [] \<and> nextIdentifier dm1 = nextIdentifier dm) \<or>
             (ids1 = [nextIdentifier dm] \<and> nextIdentifier dm1 = nextIdentifier dm + 1)"
    using s by (cases r)
      (auto simp: addNetwork_def evictNetwork_def runFunction_def submit_def Let_def)
  from Cons.IH [OF a] have ih: "sorted_wrt (<) ids2"
    "\<forall>x\<in>set ids2. nextIdentifier dm1 \<le> x \<and> x < nextIdentifier dm2"
    "nextIdentifier dm1 \<le> nextIdentifier dm2" by blast+
  from one ih show ?case unfolding eq by (auto simp: sorted_wrt_append)
qed


text \<open>
  Claim C3.  \<open>runFunction\<close> returns the value the counter \<open>nextIdentifier_\<close> had at
  the call, increments the counter once, and has by then queued the run with that
  same identifier: the identifier is allocated in the call, not by the queued task.
  Over any sequence of requests to one device manager the identifiers returned are
  strictly increasing in the order of the calls, hence pairwise distinct, and every
  identifier returned later is greater than every one returned before: none is
  reused.
\<close>

theorem runFunction_identifiers:
  "fst (runFunction dm f c k) = nextIdentifier dm \<and>
   nextIdentifier (snd (runFunction dm f c k)) = nextIdentifier dm + 1 \<and>
   workThread (snd (runFunction dm f c k)) =
     workThread dm @ [RunFunctionImpl (nextIdentifier dm) f c k] \<and>
   sorted_wrt (<) (fst (serveAll dm rs)) \<and> distinct (fst (serveAll dm rs)) \<and>
   (\<forall>x\<in>set (fst (serveAll dm rs)). \<forall>y\<in>set (fst (serveAll (snd (serveAll dm rs)) rs')). x < y)"
proof -
  obtain ids dm' where a: "serveAll dm rs = (ids, dm')" by (cases "serveAll dm rs")
  obtain ids' dm'' where b: "serveAll dm' rs' = (ids', dm'')" by (cases "serveAll dm' rs'")
  note A = serveAll_ids [OF a] and B = serveAll_ids [OF b]
  from A have s: "sorted_wrt (<) ids" by blast
  then have d: "distinct ids" by (simp add: strict_sorted_iff)
  from A B have l: "\<forall>x\<in>set ids. \<forall>y\<in>set ids'. x < y" by fastforce
  have r: "fst (runFunction dm f c k) = nextIdentifier dm \<and>
   nextIdentifier (snd (runFunction dm f c k)) = nextIdentifier dm + 1 \<and>
   workThread (snd (runFunction dm f c k)) =
     workThread dm @ [RunFunctionImpl (nextIdentifier dm) f c k]"
    by (simp add: runFunction_def submit_def Let_def)
  from r s d l show ?thesis by (simp add: a b)
qed

text \<open>
  Claim C3 on a device manager whose counter is 1: two runs with an eviction between
  them get 1 and 2, a later run gets 3.
\<close>

theorem runFunction_identifiers_witness:
  "fst (serveAll \<lparr>nextIdentifier = 1, workThread = []\<rparr>
         [RunFunction ''f'' () (), EvictNetwork ''f'', RunFunction ''g'' () ()]) = [1, 2] \<and>
   fst (serveAll (snd (serveAll \<lparr>nextIdentifier = 1, workThread = []\<rparr>
         [RunFunction ''f'' () (), EvictNetwork ''f'', RunFunction ''g'' () ()]))
         [AddNetwork () () (), RunFunction ''f'' () ()]) = [3] \<and>
   sorted_wrt (<) [1, 2 :: nat] \<and> (1 :: nat) < 3 \<and> (2 :: nat) < 3"
  using runFunction_identifiers [of "\<lparr>nextIdentifier = 1, workThread = []\<rparr>" "''f''" "()" "()"
      "[RunFunction ''f'' () (), EvictNetwork ''f'', RunFunction ''g'' () ()]"
      "[AddNetwork () () (), RunFunction ''f'' () ()]"]
  by (simp add: runFunction_def addNetwork_def evictNetwork_def submit_def Let_def)

section \<open>The number of worker threads and their ranges\<close>




section \<open>The expected-label check\<close>






section \<open>The image list file\<close>

text \<open>
  The reading loop ends only at end of file.  On a file that could not be opened every
  \<^verbatim>\<open>getline\<close> fails without reaching the end, so the loop does not return; on an
  open file it returns the non-empty lines.
\<close>

lemma readImageList_unopened_aux:
  assumes "readImageList inFile filenames = Some y"
  shows "eofbit inFile \<or> \<not> failbit inFile"
proof (rule readImageList.raw_induct
    [where P = "\<lambda>inFile filenames y. eofbit inFile \<or> \<not> failbit inFile", OF _ assms])
  fix rd :: "ifstream \<Rightarrow> string list \<Rightarrow> string list option" and inFile filenames y
  assume IH: "\<And>f b y. rd f b = Some y \<Longrightarrow> eofbit f \<or> \<not> failbit f"
    and body: "(if \<not> \<not> eofbit inFile then Some filenames
      else rd (fst (getline inFile))
            (if snd (getline inFile) \<noteq> []
             then filenames @ [snd (getline inFile)] else filenames)) = Some y"
  show "eofbit inFile \<or> \<not> failbit inFile"
  proof (rule ccontr)
    assume "\<not> (eofbit inFile \<or> \<not> failbit inFile)"
    then have b: "\<not> eofbit inFile" "failbit inFile" by simp_all
    then have g: "getline inFile = (inFile\<lparr>failbit := True\<rparr>, [])" by (simp add: getline_def)
    from body b g have "rd (inFile\<lparr>failbit := True\<rparr>) filenames = Some y" by simp
    from IH [OF this] b show False by simp
  qed
qed

lemma readImageList_unopened: "readImageList (openFile None) filenames = None"
proof (cases "readImageList (openFile None) filenames")
  case (Some y)
  from readImageList_unopened_aux [OF this] show ?thesis by (simp add: openFile_def)
qed simp

lemma readImageList_good:
  "\<not> eofbit inFile \<Longrightarrow> \<not> failbit inFile \<Longrightarrow>
   readImageList inFile filenames =
     Some (filenames @ filter (\<lambda>img. img \<noteq> []) (fileLines (unread inFile)))"
proof (induction "length (unread inFile)" arbitrary: inFile filenames rule: less_induct)
  case less
  let ?img = "takeWhile (\<lambda>c. c \<noteq> CHR 0x0A) (unread inFile)"
  let ?acc = "if ?img \<noteq> [] then filenames @ [?img] else filenames"
  show ?case
  proof (cases "dropWhile (\<lambda>c. c \<noteq> CHR 0x0A) (unread inFile)")
    case Nil
    with less.prems have g: "getline inFile =
        (inFile\<lparr>unread := [], eofbit := True, failbit := (?img = [])\<rparr>, ?img)"
      by (simp add: getline_def Let_def del: dropWhile_eq_Nil_conv)
    have "readImageList inFile filenames = readImageList (fst (getline inFile)) ?acc"
      using less.prems g by (subst readImageList.simps) simp
    also have "\<dots> = Some ?acc" unfolding g by (subst readImageList.simps) simp
    also have "?acc = filenames @ filter (\<lambda>img. img \<noteq> []) (fileLines (unread inFile))"
      using Nil by (subst fileLines.simps) (simp del: dropWhile_eq_Nil_conv)
    finally show ?thesis .
  next
    case (Cons newline rest)
    with less.prems have g: "getline inFile = (inFile\<lparr>unread := rest\<rparr>, ?img)"
      by (simp add: getline_def Let_def del: dropWhile_eq_Nil_conv)
    have "length (newline # rest) \<le> length (unread inFile)"
      using Cons by (metis length_dropWhile_le)
    then have shorter: "length (unread (inFile\<lparr>unread := rest\<rparr>)) < length (unread inFile)" by simp
    have "readImageList inFile filenames = readImageList (inFile\<lparr>unread := rest\<rparr>) ?acc"
      using less.prems g by (subst readImageList.simps) simp
    also have "\<dots> = Some (?acc @ filter (\<lambda>img. img \<noteq> []) (fileLines rest))"
      using less.hyps [OF shorter, of ?acc] less.prems by simp
    also have "?acc @ filter (\<lambda>img. img \<noteq> []) (fileLines rest) =
               filenames @ filter (\<lambda>img. img \<noteq> []) (fileLines (unread inFile))"
      using Cons by (subst (2) fileLines.simps) (simp del: dropWhile_eq_Nil_conv)
    finally show ?thesis .
  qed
qed

lemma collectInputImages_readable:
  "inputImageListFile opts = [] \<or> listFile opts \<noteq> None \<Longrightarrow> \<exists>opts'. collectInputImages opts = Some opts'"
  by (cases "listFile opts")
    (auto simp: collectInputImages_def parseInputImageList_def openFile_def readImageList_good)

lemma collectInputImages_labels:
  "collectInputImages opts = Some opts' \<Longrightarrow>
   expectedMatchingLabels opts' = expectedMatchingLabels opts"
  by (auto simp: collectInputImages_def parseInputImageList_def split: if_splits option.splits)

lemma collectInputImages_unopened:
  "inputImageListFile opts \<noteq> [] \<Longrightarrow> listFile opts = None \<Longrightarrow> collectInputImages opts = None"
  by (simp add: collectInputImages_def parseInputImageList_def readImageList_unopened)

section \<open>The checks of main\<close>

text \<open>
  Claim C8.  When the image list file is not used or can be read, \<open>main\<close> gets past
  reading it; if then the expected labels are not empty and their number differs from
  the number of input images, \<open>main\<close> ends with status 1 or in a failed assertion,
  having printed at most one error message and with no image loaded, no model
  compiled and no inference run; and when images were given, positionally or by the
  list file and not both, it returns 1 with the mismatch message.
\<close>

theorem main_label_count_mismatch:
  "inputImageListFile opts = [] \<or> listFile opts \<noteq> None \<longrightarrow>
   (\<exists>opts'. collectInputImages opts = Some opts' \<and>
      (expectedMatchingLabels opts \<noteq> [] \<and>
       length (expectedMatchingLabels opts) \<noteq> length (inputImageFilenames opts') \<longrightarrow>
         main opts = (Exit 1, [Errs [Str argsMessage]]) \<or>
         main opts = (AssertionFailed, []) \<or>
         main opts =
           (Exit 1, [Errs (mismatchMessage (length (expectedMatchingLabels opts))
                             (length (inputImageFilenames opts')))])) \<and>
      (expectedMatchingLabels opts \<noteq> [] \<and>
       length (expectedMatchingLabels opts) \<noteq> length (inputImageFilenames opts') \<and>
       \<not> (inputImageListFile opts = [] \<and> inputImageFilenames opts = []) \<and>
       \<not> (inputImageListFile opts \<noteq> [] \<and> inputImageFilenames opts \<noteq> []) \<longrightarrow>
         main opts =
           (Exit 1, [Errs (mismatchMessage (length (expectedMatchingLabels opts))
                             (length (inputImageFilenames opts')))])))"
proof
  assume "inputImageListFile opts = [] \<or> listFile opts \<noteq> None"
  from collectInputImages_readable [OF this] obtain opts'
    where c: "collectInputImages opts = Some opts'" by blast
  note l = collectInputImages_labels [OF c]
  show "\<exists>opts'. collectInputImages opts = Some opts' \<and>
      (expectedMatchingLabels opts \<noteq> [] \<and>
       length (expectedMatchingLabels opts) \<noteq> length (inputImageFilenames opts') \<longrightarrow>
         main opts = (Exit 1, [Errs [Str argsMessage]]) \<or>
         main opts = (AssertionFailed, []) \<or>
         main opts =
           (Exit 1, [Errs (mismatchMessage (length (expectedMatchingLabels opts))
                             (length (inputImageFilenames opts')))])) \<and>
      (expectedMatchingLabels opts \<noteq> [] \<and>
       length (expectedMatchingLabels opts) \<noteq> length (inputImageFilenames opts') \<and>
       \<not> (inputImageListFile opts = [] \<and> inputImageFilenames opts = []) \<and>
       \<not> (inputImageListFile opts \<noteq> [] \<and> inputImageFilenames opts \<noteq> []) \<longrightarrow>
         main opts =
           (Exit 1, [Errs (mismatchMessage (length (expectedMatchingLabels opts))
                             (length (inputImageFilenames opts')))]))"
    by (rule exI [of _ opts']) (simp add: main_def c l)
qed

text \<open>
  Claim C8 on a list file of two images with one expected label.
\<close>

theorem main_label_count_mismatch_witness:
  "(inputImageListFile (exampleOptions\<lparr>inputImageFilenames := [], inputImageListFile := ''list.txt'',
       listFile := Some (''a.png'' @ [CHR 0x0A] @ ''b.png'' @ [CHR 0x0A]),
       expectedMatchingLabels := [1]\<rparr>) = [] \<or>
    listFile (exampleOptions\<lparr>inputImageFilenames := [], inputImageListFile := ''list.txt'',
       listFile := Some (''a.png'' @ [CHR 0x0A] @ ''b.png'' @ [CHR 0x0A]),
       expectedMatchingLabels := [1]\<rparr>) \<noteq> None) \<and>
   map_option inputImageFilenames
     (collectInputImages (exampleOptions\<lparr>inputImageFilenames := [], inputImageListFile := ''list.txt'',
       listFile := Some (''a.png'' @ [CHR 0x0A] @ ''b.png'' @ [CHR 0x0A]),
       expectedMatchingLabels := [1]\<rparr>)) = Some [''a.png'', ''b.png''] \<and>
   main (exampleOptions\<lparr>inputImageFilenames := [], inputImageListFile := ''list.txt'',
       listFile := Some (''a.png'' @ [CHR 0x0A] @ ''b.png'' @ [CHR 0x0A]),
       expectedMatchingLabels := [1]\<rparr>) = (Exit 1, [Errs (mismatchMessage 1 2)])"
proof -
  let ?o = "exampleOptions\<lparr>inputImageFilenames := [], inputImageListFile := ''list.txt'',
       listFile := Some (''a.png'' @ [CHR 0x0A] @ ''b.png'' @ [CHR 0x0A]),
       expectedMatchingLabels := [1]\<rparr>"
  have r: "inputImageListFile ?o = [] \<or> listFile ?o \<noteq> None" by simp
  have f: "map_option inputImageFilenames (collectInputImages ?o) = Some [''a.png'', ''b.png'']"
    by code_simp
  from main_label_count_mismatch [of ?o] r obtain opts' where
    c: "collectInputImages ?o = Some opts'" and
    m: "expectedMatchingLabels ?o \<noteq> [] \<and>
       length (expectedMatchingLabels ?o) \<noteq> length (inputImageFilenames opts') \<and>
       \<not> (inputImageListFile ?o = [] \<and> inputImageFilenames ?o = []) \<and>
       \<not> (inputImageListFile ?o \<noteq> [] \<and> inputImageFilenames ?o \<noteq> []) \<longrightarrow>
         main ?o =
           (Exit 1, [Errs (mismatchMessage (length (expectedMatchingLabels ?o))
                             (length (inputImageFilenames opts')))])"
    by blast
  from c f have fs: "inputImageFilenames opts' = [''a.png'', ''b.png'']" by simp
  have "main ?o = (Exit 1, [Errs (mismatchMessage (length (expectedMatchingLabels ?o))
                             (length (inputImageFilenames opts')))])"
    by (rule m [rule_format]) (simp add: fs exampleOptions_def)
  moreover have "length (expectedMatchingLabels ?o) = 1" "length (inputImageFilenames opts') = 2"
    by (simp_all add: fs)
  ultimately have "main ?o = (Exit 1, [Errs (mismatchMessage 1 2)])" by (simp only:)
  with r f show ?thesis by blast
qed

text \<open>
  Claim C8 as first stated fails in two ways: with expected labels and no input image
  at all \<open>main\<close> reports the missing input, not the mismatch; with a list file that
  cannot be opened \<open>main\<close> does not get as far as the check, and never exits.
\<close>

theorem main_label_count_counterexample:
  "main (exampleOptions\<lparr>inputImageFilenames := [], expectedMatchingLabels := [1]\<rparr>) =
     (Exit 1, [Errs [Str argsMessage]]) \<and>
   main (exampleOptions\<lparr>inputImageFilenames := [], expectedMatchingLabels := [1]\<rparr>) \<noteq>
     (Exit 1, [Errs (mismatchMessage 1 0)]) \<and>
   main (exampleOptions\<lparr>inputImageFilenames := [], inputImageListFile := ''missing.txt'',
           listFile := None, expectedMatchingLabels := [1]\<rparr>) = (NeverReturns, [])"
  by (simp add: exampleOptions_def main_def collectInputImages_unopened mismatchMessage_def)

section \<open>The ranges of the worker threads\<close>

text \<open>
  With at least one thread, and a number of images that is a multiple of the
  mini-batch size, the ranges \<open>[startIndex, endIndex)\<close> cover the images exactly,
  each before the next, and each holds a whole number of mini-batches.  (A thread
  beyond the work gets a range that starts after its end, which holds no index.)
\<close>

lemma ceil_div_cover: "0 < (t::nat) \<Longrightarrow> b \<le> t * ((b + t - 1) div t)"
proof -
  assume t: "0 < t"
  have "b + t - 1 = t * ((b + t - 1) div t) + (b + t - 1) mod t" by simp
  moreover have "(b + t - 1) mod t < t" using t by simp
  ultimately show ?thesis by linarith
qed

lemma threadRanges_partition:
  assumes r: "threadRanges opts = Some ranges"
    and mb: "miniBatchMode opts" "miniBatch opts dvd length (inputImageFilenames opts)"
  shows "(\<Union>r\<in>set ranges. {fst r..<snd r}) = {0..<length (inputImageFilenames opts)} \<and>
         (\<forall>i j. i < j \<and> j < length ranges \<longrightarrow>
            (\<forall>x\<in>{fst (ranges ! i)..<snd (ranges ! i)}.
             \<forall>y\<in>{fst (ranges ! j)..<snd (ranges ! j)}. x < y)) \<and>
         (\<forall>i<length ranges. miniBatch opts dvd (snd (ranges ! i) - fst (ranges ! i)))"
proof -
  let ?T = "length (inputImageFilenames opts)" and ?nt = "numThreads opts"
  let ?nb = "numBatches opts" and ?m = "miniBatch opts"
  let ?p = "(?nb + ?nt - 1) div ?nt"
  let ?c = "?p * ?m"
  from r have nt: "0 < ?nt" and rs: "ranges = map (threadRange opts ?p) [0..<?nt]"
    by (auto simp: threadRanges_def miniBatchesPerThread_def split: if_splits)
  then have len: "length ranges = ?nt" by simp
  have nth: "\<And>i. i < ?nt \<Longrightarrow> ranges ! i = threadRange opts ?p i" by (simp add: rs)
  from mb have m0: "0 < ?m" and T: "?T = ?nb * ?m"
    by (auto simp: miniBatchMode_def numBatches_def)
  show ?thesis
  proof (cases "1 < ?nt")
    case False
    with nt have "ranges = [(0, ?T)]" by (simp add: rs threadRange_def upt_rec)
    with mb show ?thesis by simp
  next
    case True
    have start: "\<And>i. i < ?nt \<Longrightarrow> fst (ranges ! i) = i * ?c"
      and stop: "\<And>i. i < ?nt \<Longrightarrow> snd (ranges ! i) = min ((i + 1) * ?c) ?T"
      using True by (simp_all add: nth threadRange_def mult.assoc distrib_right)
    have cover: "?T \<le> ?nt * ?c"
      using ceil_div_cover [OF nt, of ?nb] unfolding T by (simp add: mult.assoc [symmetric])
    have 1: "(\<Union>r\<in>set ranges. {fst r..<snd r}) = {0..<?T}"
    proof (intro equalityI subsetI)
      fix x assume "x \<in> (\<Union>r\<in>set ranges. {fst r..<snd r})"
      then obtain i where "i < ?nt" "x \<in> {fst (ranges ! i)..<snd (ranges ! i)}"
        using len by (auto simp: in_set_conv_nth)
      then show "x \<in> {0..<?T}" by (simp add: start stop)
    next
      fix x assume x: "x \<in> {0..<?T}"
      then have c0: "0 < ?c" using cover by (cases "?c = 0") auto
      let ?i = "x div ?c"
      have "x < ?nt * ?c" using x cover by simp
      then have i: "?i < ?nt" using c0 by (simp add: div_less_iff_less_mult)
      have lo: "?i * ?c \<le> x" by simp
      have "x < ?c + x div ?c * ?c" using c0 by (rule dividend_less_div_times)
      then have hi: "x < (?i + 1) * ?c" by (simp add: distrib_right)
      from i lo hi x have "x \<in> {fst (ranges ! ?i)..<snd (ranges ! ?i)}"
        by (simp add: start stop)
      moreover have "ranges ! ?i \<in> set ranges" using i len by simp
      ultimately show "x \<in> (\<Union>r\<in>set ranges. {fst r..<snd r})" by blast
    qed
    have 2: "\<forall>i j. i < j \<and> j < length ranges \<longrightarrow>
            (\<forall>x\<in>{fst (ranges ! i)..<snd (ranges ! i)}.
             \<forall>y\<in>{fst (ranges ! j)..<snd (ranges ! j)}. x < y)"
    proof (intro allI impI ballI)
      fix i j x y
      assume ij: "i < j \<and> j < length ranges"
        and x: "x \<in> {fst (ranges ! i)..<snd (ranges ! i)}"
        and y: "y \<in> {fst (ranges ! j)..<snd (ranges ! j)}"
      from ij len have i: "i < ?nt" and j: "j < ?nt" by simp_all
      from x i have "x < (i + 1) * ?c" by (simp add: stop)
      also from ij have "(i + 1) * ?c \<le> j * ?c" by (intro mult_le_mono1) simp
      also from y j have "j * ?c \<le> y" by (simp add: start)
      finally show "x < y" .
    qed
    have 3: "\<forall>i<length ranges. ?m dvd (snd (ranges ! i) - fst (ranges ! i))"
    proof (intro allI impI)
      fix i assume "i < length ranges"
      with len have i: "i < ?nt" by simp
      have "?m dvd min ((i + 1) * ?c) ?T" unfolding T by (simp add: min_def)
      moreover have "?m dvd i * ?c" by simp
      ultimately have "?m dvd (min ((i + 1) * ?c) ?T - i * ?c)" by (rule dvd_diff_nat)
      then show "?m dvd (snd (ranges ! i) - fst (ranges ! i))"
        by (simp add: start [OF i] stop [OF i])
    qed
    from 1 2 3 show ?thesis by blast
  qed
qed

text \<open>
  Claim C5.  The claim is for every worker count \<open>min miniBatchThreads numBatches\<close>,
  and that count can be zero: with \<^verbatim>\<open>-minibatch-threads=0\<close> on five images in
  mini-batches of one, \<open>numThreads\<close> is 0, and \<open>main\<close> prints that it runs 0 threads
  and then divides by zero in \<^verbatim>\<open>(numBatches + numThreads - 1) / numThreads\<close>: no
  range is computed, and no image is processed.  The same happens on an empty list
  file, where \<open>numBatches\<close> is 0.
\<close>

theorem threadRanges_no_thread:
  "numBatches (exampleOptions\<lparr>miniBatchThreads := 0\<rparr>) = 5 \<and>
   numThreads (exampleOptions\<lparr>miniBatchThreads := 0\<rparr>) = 0 \<and>
   miniBatchesPerThread (exampleOptions\<lparr>miniBatchThreads := 0\<rparr>) = None \<and>
   threadRanges (exampleOptions\<lparr>miniBatchThreads := 0\<rparr>) = None \<and>
   main (exampleOptions\<lparr>miniBatchThreads := 0\<rparr>) =
     (Undefined,
      [Outs [Str ''Model: '', Str ''model'', Str [CHR 0x0A]],
       Outs [Str ''Running '', Num 0, Str ('' thread(s).'' @ [CHR 0x0A])]]) \<and>
   numBatches (exampleOptions\<lparr>inputImageFilenames := []\<rparr>) = 0 \<and>
   numThreads (exampleOptions\<lparr>inputImageFilenames := []\<rparr>) = 0 \<and>
   threadRanges (exampleOptions\<lparr>inputImageFilenames := []\<rparr>) = None \<and>
   main (exampleOptions\<lparr>inputImageFilenames := [], inputImageListFile := ''list.txt'',
           listFile := Some []\<rparr>) =
     (Undefined,
      [Outs [Str ''Model: '', Str ''model'', Str [CHR 0x0A]],
       Outs [Str ''Running '', Num 0, Str ('' thread(s).'' @ [CHR 0x0A])]])"
  by code_simp

text \<open>
  Claim C5 on the first of these inputs: \<open>main\<close> ends in undefined behaviour, with no
  number of mini-batches per thread.
\<close>

theorem threadRanges_no_thread_witness:
  "miniBatchesPerThread (exampleOptions\<lparr>miniBatchThreads := 0\<rparr>) = None \<and>
   fst (main (exampleOptions\<lparr>miniBatchThreads := 0\<rparr>)) = Undefined"
  using threadRanges_no_thread by simp

section \<open>Streaming mode\<close>

text \<open>
  What a worker adds to the events: the loop condition adds the prompt and the read
  of standard input, in streaming mode only; the loop body adds the loading of the
  current batch and never reads standard input.
\<close>

lemma copyMiniBatch_Some:
  "copyMiniBatch acc xs i e = Some r \<Longrightarrow> r = acc @ take (e - i) (drop i xs)"
proof (induction acc xs i e rule: copyMiniBatch.induct)
  case (1 imageList totalImageList index endIndex)
  show ?case
  proof (cases "index < endIndex")
    case False
    with "1.prems" show ?thesis by (subst (asm) copyMiniBatch.simps) simp
  next
    case True
    from "1.prems" True have lt: "index < length totalImageList"
      by (subst (asm) copyMiniBatch.simps) (simp split: if_splits)
    from "1.prems" True lt
    have "copyMiniBatch (imageList @ [totalImageList ! index]) totalImageList (Suc index) endIndex = Some r"
      by (subst (asm) copyMiniBatch.simps) simp
    from "1.IH" [OF True lt this]
    have "r = (imageList @ [totalImageList ! index]) @
                take (endIndex - Suc index) (drop (Suc index) totalImageList)" .
    moreover from True have e: "endIndex - index = Suc (endIndex - Suc index)" by simp
    have "take (endIndex - index) (drop index totalImageList) =
          totalImageList ! index # take (endIndex - Suc index) (drop (Suc index) totalImageList)"
      unfolding e using lt by (simp add: Cons_nth_drop_Suc [symmetric])
    ultimately show ?thesis by simp
  qed
qed


lemma consecutive_Nil: "consecutive filenames []"
  unfolding consecutive_def by (rule exI [of _ 0], rule exI [of _ 0]) simp

lemma consecutive_all: "consecutive filenames filenames"
  unfolding consecutive_def by (rule exI [of _ 0], rule exI [of _ "length filenames"]) simp

lemma getNextMiniBatch_consecutive:
  assumes "getNextMiniBatch imageList totalImageList i n limit = Some (b, imageList', i')"
    and "consecutive totalImageList imageList"
  shows "consecutive totalImageList imageList'"
proof (cases "limit \<le> i")
  case True
  with assms show ?thesis by (simp add: getNextMiniBatch_def)
next
  case False
  with assms(1) obtain r where r: "copyMiniBatch [] totalImageList i (i + n) = Some r"
    and "imageList' = r"
    by (auto simp: getNextMiniBatch_def split: option.splits)
  with copyMiniBatch_Some [OF r] have "imageList' = take n (drop i totalImageList)" by simp
  then show ?thesis unfolding consecutive_def by blast
qed


lemma quiet_append: "quiet fs (xs @ ys) \<longleftrightarrow> quiet fs xs \<and> quiet fs ys"
  by (auto simp: quiet_def)

lemma streamCondition_events:
  assumes "streamCondition streaming w = (b, w1)"
  shows "events w1 = events w @
           (if streaming then [Outs [Str ''Enter image filenames to classify: ''], GetlineStdin] else []) \<and>
         (\<not> streaming \<longrightarrow> w1 = w)"
proof (cases streaming)
  case False
  with assms show ?thesis by (simp add: streamCondition_def)
next
  case True
  obtain b' filenames rest where g: "getNextImageFilenames (remainingInput w) = (b', filenames, rest)"
    by (cases "getNextImageFilenames (remainingInput w)") auto
  with assms True show ?thesis by (auto simp: streamCondition_def)
qed

lemma miniBatchCondition_events:
  assumes "miniBatchCondition opts endIndex w = Some (b, w1)"
  shows "events w1 = events w \<and>
         (consecutive (inputImageFilenames opts) (inputImageBatchFilenames w) \<longrightarrow>
          consecutive (inputImageFilenames opts) (inputImageBatchFilenames w1))"
proof (cases "miniBatch opts \<noteq> 0")
  case False
  with assms show ?thesis by (simp add: miniBatchCondition_def)
next
  case True
  with assms obtain imageList index where
    m: "getNextMiniBatch (inputImageBatchFilenames w) (inputImageFilenames opts)
          (miniBatchIndex w) (miniBatch opts) endIndex = Some (b, imageList, index)"
    and w1: "w1 = w\<lparr>inputImageBatchFilenames := imageList, miniBatchIndex := index\<rparr>"
    by (auto simp: miniBatchCondition_def split: option.splits)
  from getNextMiniBatch_consecutive [OF m] show ?thesis unfolding w1 by simp
qed

lemma loopCondition_events:
  assumes "loopCondition opts streaming endIndex w = Some (c, w1)"
  shows "events w1 = events w @
           (if streaming then [Outs [Str ''Enter image filenames to classify: ''], GetlineStdin] else []) \<and>
         (\<not> streaming \<and> consecutive (inputImageFilenames opts) (inputImageBatchFilenames w) \<longrightarrow>
          consecutive (inputImageFilenames opts) (inputImageBatchFilenames w1))"
proof -
  obtain b1 wa where s: "streamCondition streaming w = (b1, wa)"
    by (cases "streamCondition streaming w") auto
  note se = streamCondition_events [OF s]
  show ?thesis
  proof (cases b1)
    case True
    with assms s have "w1 = wa" by (simp add: loopCondition_def)
    moreover from True s have streaming by (auto simp: streamCondition_def split: if_splits)
    ultimately show ?thesis using se by simp
  next
    case False
    with assms s have h: "(case miniBatchCondition opts endIndex wa of
                  None \<Rightarrow> None
                | Some (b2, w2) \<Rightarrow>
                    if b2 then Some (True, w2) else Some (isFirstRun w2, w2)) = Some (c, w1)"
      by (simp add: loopCondition_def)
    then obtain x where x: "miniBatchCondition opts endIndex wa = Some x"
      by (cases "miniBatchCondition opts endIndex wa") simp_all
    obtain b2 w2 where x2: "x = (b2, w2)" by (cases x)
    from h x x2 have "w2 = w1" by (cases b2) simp_all
    with x x2 have m: "miniBatchCondition opts endIndex wa = Some (b2, w1)" by simp
    from miniBatchCondition_events [OF m] se show ?thesis by auto
  qed
qed

lemma loopBody_events:
  assumes "loopBody opts w = Some (r, w')"
  shows "\<exists>es. events w' = events w @ LoadImagesAndPreprocess (inputImageBatchFilenames w) # es \<and>
           GetlineStdin \<notin> set es \<and> (\<forall>b. LoadImagesAndPreprocess b \<notin> set es) \<and>
           inputImageBatchFilenames w' = inputImageBatchFilenames w"
  using assms
  by (auto simp: loopBody_def Let_def split: if_splits option.splits)

lemma processImageLoop_invariant:
  "(\<And>w c w1. I w \<Longrightarrow> loopCondition opts streaming endIndex w = Some (c, w1) \<Longrightarrow> I w1) \<Longrightarrow>
   (\<And>w1 r w2. I w1 \<Longrightarrow> loopBody opts w1 = Some (r, w2) \<Longrightarrow> I w2) \<Longrightarrow>
   I w \<Longrightarrow> processImageLoop opts streaming endIndex w = Some (r, w') \<Longrightarrow> I w'"
proof (induction opts streaming endIndex w rule: processImageLoop.induct)
  case (1 opts streaming endIndex w)
  from "1.prems"(4) obtain x where x: "loopCondition opts streaming endIndex w = Some x"
    by (subst (asm) processImageLoop.simps) (simp split: option.splits)
  obtain c w1 where cw: "x = (c, w1)" by (cases x)
  from "1.prems"(1) [OF "1.prems"(3)] x cw have I1: "I w1" by simp
  show ?case
  proof (cases c)
    case False
    with "1.prems"(4) x cw have "w' = w1"
      by (subst (asm) processImageLoop.simps) simp
    with I1 show ?thesis by simp
  next
    case True
    with "1.prems"(4) x cw obtain y where y: "loopBody opts w1 = Some y"
      by (subst (asm) processImageLoop.simps) (simp split: option.splits)
    obtain ret w2 where rw: "y = (ret, w2)" by (cases y)
    from "1.prems"(2) [OF I1] y rw have I2: "I w2" by simp
    show ?thesis
    proof (cases ret)
      case True
      with "1.prems"(4) x cw y rw \<open>c\<close> have "w' = w2"
        by (subst (asm) processImageLoop.simps) simp
      with I2 show ?thesis by simp
    next
      case False
      with "1.prems"(4) x cw y rw \<open>c\<close>
      have rec: "processImageLoop opts streaming endIndex w2 = Some (r, w')"
        by (subst (asm) processImageLoop.simps) simp
      show ?thesis
        by (rule "1.IH" [OF x cw [symmetric] \<open>c\<close> y rw [symmetric] False "1.prems"(1,2) I2 rec])
    qed
  qed
qed

text \<open>
  Outside streaming mode the events of a worker, and so of \<open>main\<close>, stay quiet.
\<close>

lemma loopCondition_calm:
  assumes "calm opts w" and "loopCondition opts False endIndex w = Some (c, w1)"
  shows "calm opts w1"
  using assms(1) loopCondition_events [OF assms(2)] by (simp add: calm_def)

lemma loopBody_calm:
  assumes "calm opts w" and "loopBody opts w = Some (r, w')"
  shows "calm opts w'"
proof -
  from loopBody_events [OF assms(2)] obtain es where
    e: "events w' = events w @ LoadImagesAndPreprocess (inputImageBatchFilenames w) # es"
    and g: "GetlineStdin \<notin> set es" and l: "\<forall>b. LoadImagesAndPreprocess b \<notin> set es"
    and b: "inputImageBatchFilenames w' = inputImageBatchFilenames w" by blast
  from assms(1) have q: "quiet (inputImageFilenames opts) (events w)"
    and c: "consecutive (inputImageFilenames opts) (inputImageBatchFilenames w)"
    by (simp_all add: calm_def)
  from q c g l have "quiet (inputImageFilenames opts) (events w')"
    unfolding e quiet_def by auto
  with c b show ?thesis by (simp add: calm_def)
qed

lemma processImageLoop_calm:
  assumes "calm opts w" and "processImageLoop opts False endIndex w = Some (r, w')"
  shows "calm opts w'"
  by (rule processImageLoop_invariant [where I = "calm opts", OF _ _ assms])
     (erule (1) loopCondition_calm, erule (1) loopBody_calm)

lemma processImageRange_quiet:
  assumes "processImageRange opts False input startIndex endIndex = Some w"
  shows "quiet (inputImageFilenames opts) (events w)"
proof -
  define w0 :: "'a worker" where
    "w0 = \<lparr>isFirstRun = True, inputImagePH = None, miniBatchIndex = startIndex,
           inputImageBatchFilenames =
             (if \<not> 0 < miniBatch opts \<and> \<not> False then inputImageFilenames opts else []),
           numErrors = 0, remainingInput = input, events = [], aborted = False\<rparr>"
  have c0: "calm opts w0"
    by (simp add: w0_def calm_def quiet_def consecutive_Nil consecutive_all)
  from assms obtain x where x: "processImageLoop opts False endIndex w0 = Some x"
    unfolding processImageRange_def w0_def Let_def by (simp split: option.splits)
  obtain r w' where rw: "x = (r, w')" by (cases x)
  from processImageLoop_calm [OF c0] x rw have "calm opts w'" by simp
  then have q: "quiet (inputImageFilenames opts) (events w')" by (simp add: calm_def)
  from assms x rw have "w = w' \<or> w = w'\<lparr>events := events w' @ [GenerateAndSerializeQuantizationInfos]\<rparr>"
    unfolding processImageRange_def w0_def [symmetric] Let_def by (auto split: if_splits)
  with q show ?thesis by (auto simp: quiet_def)
qed

lemma runWorkers_quiet:
  "runWorkers opts False ranges input errors evs = Some (a, n, evs') \<Longrightarrow>
   quiet (inputImageFilenames opts) evs \<Longrightarrow> quiet (inputImageFilenames opts) evs'"
proof (induction ranges arbitrary: input errors evs)
  case Nil
  then show ?case by simp
next
  case (Cons r ranges)
  from Cons.prems(1) obtain w where w: "processImageRange opts False input (fst r) (snd r) = Some w"
    by (simp split: option.splits)
  from processImageRange_quiet [OF w] Cons.prems(2)
  have q: "quiet (inputImageFilenames opts) (evs @ events w)" by (simp add: quiet_append)
  show ?case
  proof (cases "aborted w")
    case True
    with Cons.prems(1) w have "evs' = evs @ events w" by simp
    with q show ?thesis by simp
  next
    case False
    with Cons.prems(1) w
    have "runWorkers opts False ranges (remainingInput w) (errors + numErrors w) (evs @ events w) =
            Some (a, n, evs')" by simp
    from Cons.IH [OF this q] show ?thesis .
  qed
qed

lemma runDriver_quiet: "quiet (inputImageFilenames opts) (snd (runDriver opts False))"
proof -
  define evs :: "'a event list" where
    "evs = [Outs [Str ''Model: '', Str (modelOptPath opts), Str [CHR 0x0A]]] @
           (if miniBatchThreads opts > 1 \<and> \<not> multiThreadingAllowed opts
            then [Outs [Str warningMessage]] else []) @
           [Outs [Str ''Running '', Num (numThreads opts),
                  Str ('' thread(s).'' @ [CHR 0x0A])]]"
  have q: "quiet (inputImageFilenames opts) evs" by (simp add: evs_def quiet_def)
  have rd: "runDriver opts False =
     (case threadRanges opts of
        None \<Rightarrow> (Undefined, evs)
      | Some ranges \<Rightarrow>
          (case runWorkers opts False ranges (stdinLines opts) 0 evs of
             None \<Rightarrow> (Undefined, evs)
           | Some (abort, errors, evs') \<Rightarrow>
               if abort then (AssertionFailed, evs') else (Exit errors, evs')))"
    unfolding runDriver_def Let_def evs_def by (rule refl)
  show ?thesis
  proof (cases "threadRanges opts")
    case None
    then have "snd (runDriver opts False) = evs" by (simp add: rd)
    with q show ?thesis by simp
  next
    case (Some ranges)
    show ?thesis
    proof (cases "runWorkers opts False ranges (stdinLines opts) 0 evs")
      case None
      with \<open>threadRanges opts = Some ranges\<close> have "snd (runDriver opts False) = evs"
        by (simp add: rd)
      with q show ?thesis by simp
    next
      case (Some x)
      obtain a n evs' where x: "x = (a, n, evs')" by (cases x)
      from Some x \<open>threadRanges opts = Some ranges\<close> have "snd (runDriver opts False) = evs'"
        by (simp add: rd)
      with runWorkers_quiet [OF Some [unfolded x] q] show ?thesis by simp
    qed
  qed
qed

lemma streamInputFilenamesMode_eq: "streamInputFilenamesMode filenames \<longleftrightarrow> filenames = [''-'']"
  by (cases filenames) (auto simp: streamInputFilenamesMode_def)

lemma main_cases:
  assumes "collectInputImages opts = Some opts'"
  shows "(\<exists>m. main opts = (Exit 1, [Errs m])) \<or> main opts = (AssertionFailed, []) \<or>
         main opts = runDriver opts' (streamInputFilenamesMode (inputImageFilenames opts'))"
  using assms by (simp add: main_def Let_def)

lemma main_quiet:
  assumes "collectInputImages opts = Some opts'" and "inputImageFilenames opts' \<noteq> [''-'']"
  shows "quiet (inputImageFilenames opts') (snd (main opts))"
proof -
  from assms(2) have "\<not> streamInputFilenamesMode (inputImageFilenames opts')"
    by (simp add: streamInputFilenamesMode_eq)
  with main_cases [OF assms(1)] runDriver_quiet [of opts'] show ?thesis
    by (auto simp: quiet_def)
qed

text \<open>In streaming mode the worker reads standard input before anything else.\<close>

lemma loopCondition_stdin:
  assumes "loopCondition opts True endIndex w = Some (c, w1)"
  shows "GetlineStdin \<in> set (events w1)"
  using loopCondition_events [OF assms] by simp

lemma loopBody_stdin:
  assumes "GetlineStdin \<in> set (events w)" and "loopBody opts w = Some (r, w')"
  shows "GetlineStdin \<in> set (events w')"
  using loopBody_events [OF assms(2)] assms(1) by auto

lemma processImageLoop_stdin:
  assumes "processImageLoop opts True endIndex w = Some (r, w')"
  shows "GetlineStdin \<in> set (events w')"
proof -
  from assms obtain x where x: "loopCondition opts True endIndex w = Some x"
    by (subst (asm) processImageLoop.simps) (simp split: option.splits)
  obtain c w1 where cw: "x = (c, w1)" by (cases x)
  from loopCondition_stdin x cw have g1: "GetlineStdin \<in> set (events w1)" by blast
  show ?thesis
  proof (cases c)
    case False
    with assms x cw have "w' = w1" by (subst (asm) processImageLoop.simps) simp
    with g1 show ?thesis by simp
  next
    case True
    with assms x cw obtain y where y: "loopBody opts w1 = Some y"
      by (subst (asm) processImageLoop.simps) (simp split: option.splits)
    obtain ret w2 where rw: "y = (ret, w2)" by (cases y)
    from loopBody_stdin [OF g1] y rw have g2: "GetlineStdin \<in> set (events w2)" by blast
    show ?thesis
    proof (cases ret)
      case True
      with assms x cw y rw \<open>c\<close> have "w' = w2" by (subst (asm) processImageLoop.simps) simp
      with g2 show ?thesis by simp
    next
      case False
      with assms x cw y rw \<open>c\<close>
      have rec: "processImageLoop opts True endIndex w2 = Some (r, w')"
        by (subst (asm) processImageLoop.simps) simp
      show ?thesis
        by (rule processImageLoop_invariant
                   [where I = "\<lambda>w. GetlineStdin \<in> set (events w)", OF _ _ g2 rec])
           (drule loopCondition_events, simp, erule (1) loopBody_stdin)
    qed
  qed
qed

lemma processImageRange_stdin:
  assumes "processImageRange opts True input startIndex endIndex = Some w"
  shows "GetlineStdin \<in> set (events w)"
proof -
  define w0 :: "'a worker" where
    "w0 = \<lparr>isFirstRun = True, inputImagePH = None, miniBatchIndex = startIndex,
           inputImageBatchFilenames =
             (if \<not> 0 < miniBatch opts \<and> \<not> True then inputImageFilenames opts else []),
           numErrors = 0, remainingInput = input, events = [], aborted = False\<rparr>"
  from assms obtain x where x: "processImageLoop opts True endIndex w0 = Some x"
    unfolding processImageRange_def w0_def Let_def by (simp split: option.splits)
  obtain r w' where rw: "x = (r, w')" by (cases x)
  from processImageLoop_stdin x rw have g: "GetlineStdin \<in> set (events w')" by blast
  from assms x rw have "w = w' \<or> w = w'\<lparr>events := events w' @ [GenerateAndSerializeQuantizationInfos]\<rparr>"
    unfolding processImageRange_def w0_def [symmetric] Let_def by (auto split: if_splits)
  with g show ?thesis by auto
qed

lemma runWorkers_stdin:
  assumes "runWorkers opts True (r # ranges) input errors evs = Some (a, n, evs')"
  shows "GetlineStdin \<in> set evs'"
proof -
  from assms obtain w where w: "processImageRange opts True input (fst r) (snd r) = Some w"
    by (simp split: option.splits)
  have mono: "runWorkers opts s rs i e es = Some (a, n, evs') \<Longrightarrow> set es \<subseteq> set evs'"
    for s rs i e es
  proof (induction rs arbitrary: i e es)
    case Nil then show ?case by simp
  next
    case (Cons r rs)
    from Cons.prems obtain w where w: "processImageRange opts s i (fst r) (snd r) = Some w"
      by (simp split: option.splits)
    show ?case
    proof (cases "aborted w")
      case True with Cons.prems w show ?thesis by auto
    next
      case False
      with Cons.prems w have "runWorkers opts s rs (remainingInput w) (e + numErrors w) (es @ events w) = Some (a, n, evs')"
        by simp
      from Cons.IH [OF this] show ?thesis by simp
    qed
  qed
  from processImageRange_stdin [OF w] have g: "GetlineStdin \<in> set (evs @ events w)" by simp
  show ?thesis
  proof (cases "aborted w")
    case True with assms w g show ?thesis by simp
  next
    case False
    with assms w have "runWorkers opts True ranges (remainingInput w) (errors + numErrors w) (evs @ events w) = Some (a, n, evs')"
      by simp
    from mono [OF this] g show ?thesis by blast
  qed
qed

lemma runDriver_stdin:
  assumes "runDriver opts True = (Exit n, evs)" and "\<not> miniBatchMode opts"
  shows "GetlineStdin \<in> set evs"
proof -
  define evs0 :: "'a event list" where
    "evs0 = [Outs [Str ''Model: '', Str (modelOptPath opts), Str [CHR 0x0A]]] @
           (if miniBatchThreads opts > 1 \<and> \<not> multiThreadingAllowed opts
            then [Outs [Str warningMessage]] else []) @
           [Outs [Str ''Running '', Num (numThreads opts),
                  Str ('' thread(s).'' @ [CHR 0x0A])]]"
  have rd: "runDriver opts True =
     (case threadRanges opts of
        None \<Rightarrow> (Undefined, evs0)
      | Some ranges \<Rightarrow>
          (case runWorkers opts True ranges (stdinLines opts) 0 evs0 of
             None \<Rightarrow> (Undefined, evs0)
           | Some (abort, errors, evs') \<Rightarrow>
               if abort then (AssertionFailed, evs') else (Exit errors, evs')))"
    unfolding runDriver_def Let_def evs0_def by (rule refl)
  from assms(2) have nt: "numThreads opts = 1" by (simp add: numThreads_def multiThreadingAllowed_def)
  then obtain r where tr: "threadRanges opts = Some [r]"
    by (simp add: threadRanges_def miniBatchesPerThread_def)
  from assms(1) tr obtain x where
    x: "runWorkers opts True [r] (stdinLines opts) 0 evs0 = Some x"
    unfolding rd by (cases "runWorkers opts True [r] (stdinLines opts) 0 evs0") simp_all
  obtain a m evs' where xe: "x = (a, m, evs')" by (cases x)
  from assms(1) tr x xe have "evs' = evs"
    unfolding rd by (cases a) simp_all
  with runWorkers_stdin [OF x [unfolded xe]] show ?thesis by simp
qed

text \<open>
  Without mini-batches and without streaming the worker loads the whole list of
  input filenames.
\<close>

lemma plain_worker_loads_all:
  assumes "miniBatch opts = 0" "processImageRange opts False input s e = Some w"
  shows "LoadImagesAndPreprocess (inputImageFilenames opts) \<in> set (events w)"
proof -
  define w0 :: "'a worker" where
    "w0 = \<lparr>isFirstRun = True, inputImagePH = None, miniBatchIndex = s,
           inputImageBatchFilenames =
             (if \<not> 0 < miniBatch opts \<and> \<not> False then inputImageFilenames opts else []),
           numErrors = 0, remainingInput = input, events = [], aborted = False\<rparr>"
  have b0: "inputImageBatchFilenames w0 = inputImageFilenames opts"
    using assms(1) by (simp add: w0_def)
  have c0: "loopCondition opts False e w0 = Some (True, w0)"
    using assms(1) by (simp add: w0_def loopCondition_def streamCondition_def miniBatchCondition_def)
  from assms(2) obtain x where x: "processImageLoop opts False e w0 = Some x"
    unfolding processImageRange_def w0_def Let_def by (simp split: option.splits)
  obtain r w' where rw: "x = (r, w')" by (cases x)
  from x rw c0 obtain y where y: "loopBody opts w0 = Some y"
    by (subst (asm) processImageLoop.simps) (simp split: option.splits)
  obtain ret w2 where yr: "y = (ret, w2)" by (cases y)
  from loopBody_events [OF y [unfolded yr]] b0
  have l2: "LoadImagesAndPreprocess (inputImageFilenames opts) \<in> set (events w2)" by auto
  have l': "LoadImagesAndPreprocess (inputImageFilenames opts) \<in> set (events w')"
  proof (cases ret)
    case True
    with x rw c0 y yr have "w' = w2" by (subst (asm) processImageLoop.simps) simp
    with l2 show ?thesis by simp
  next
    case False
    with x rw c0 y yr have rec: "processImageLoop opts False e w2 = Some (r, w')"
      by (subst (asm) processImageLoop.simps) simp
    show ?thesis
      by (rule processImageLoop_invariant
                 [where I = "\<lambda>w. LoadImagesAndPreprocess (inputImageFilenames opts) \<in> set (events w)",
                  OF _ _ l2 rec])
         (drule loopCondition_events, simp, drule loopBody_events, auto)
  qed
  from assms(2) x rw have "w = w' \<or> w = w'\<lparr>events := events w' @ [GenerateAndSerializeQuantizationInfos]\<rparr>"
    unfolding processImageRange_def w0_def [symmetric] Let_def by (auto split: if_splits)
  with l' show ?thesis by auto
qed

lemma runWorkers_mono:
  "runWorkers opts s rs i e es = Some (a, n, evs') \<Longrightarrow> set es \<subseteq> set evs'"
proof (induction rs arbitrary: i e es)
  case Nil then show ?case by simp
next
  case (Cons r rs)
  from Cons.prems obtain w where w: "processImageRange opts s i (fst r) (snd r) = Some w"
    by (simp split: option.splits)
  show ?case
  proof (cases "aborted w")
    case True with Cons.prems w show ?thesis by auto
  next
    case False
    with Cons.prems w have "runWorkers opts s rs (remainingInput w) (e + numErrors w) (es @ events w) = Some (a, n, evs')"
      by simp
    from Cons.IH [OF this] show ?thesis by simp
  qed
qed

lemma runDriver_loads_all:
  assumes "runDriver opts False = (Exit n, evs)" and "miniBatch opts = 0"
  shows "LoadImagesAndPreprocess (inputImageFilenames opts) \<in> set evs"
proof -
  define evs0 :: "'a event list" where
    "evs0 = [Outs [Str ''Model: '', Str (modelOptPath opts), Str [CHR 0x0A]]] @
           (if miniBatchThreads opts > 1 \<and> \<not> multiThreadingAllowed opts
            then [Outs [Str warningMessage]] else []) @
           [Outs [Str ''Running '', Num (numThreads opts),
                  Str ('' thread(s).'' @ [CHR 0x0A])]]"
  have rd: "runDriver opts False =
     (case threadRanges opts of
        None \<Rightarrow> (Undefined, evs0)
      | Some ranges \<Rightarrow>
          (case runWorkers opts False ranges (stdinLines opts) 0 evs0 of
             None \<Rightarrow> (Undefined, evs0)
           | Some (abort, errors, evs') \<Rightarrow>
               if abort then (AssertionFailed, evs') else (Exit errors, evs')))"
    unfolding runDriver_def Let_def evs0_def by (rule refl)
  from assms(2) have nt: "numThreads opts = 1"
    by (simp add: numThreads_def multiThreadingAllowed_def miniBatchMode_def)
  then obtain r where tr: "threadRanges opts = Some [r]"
    by (simp add: threadRanges_def miniBatchesPerThread_def)
  from assms(1) tr obtain x where
    x: "runWorkers opts False [r] (stdinLines opts) 0 evs0 = Some x"
    unfolding rd by (cases "runWorkers opts False [r] (stdinLines opts) 0 evs0") simp_all
  obtain a m evs' where xe: "x = (a, m, evs')" by (cases x)
  from assms(1) tr x xe have ee: "evs' = evs"
    unfolding rd by (cases a) simp_all
  from x xe obtain w where w: "processImageRange opts False (stdinLines opts) (fst r) (snd r) = Some w"
    by (simp split: option.splits)
  from plain_worker_loads_all [OF assms(2) w]
  have g: "LoadImagesAndPreprocess (inputImageFilenames opts) \<in> set (evs0 @ events w)" by simp
  show ?thesis
  proof (cases "aborted w")
    case True with x xe w g ee show ?thesis by simp
  next
    case False
    with x xe w have "runWorkers opts False [] (remainingInput w) (0 + numErrors w) (evs0 @ events w) = Some (a, m, evs')"
      by simp
    from runWorkers_mono [OF this] g ee show ?thesis by blast
  qed
qed

lemma collectInputImages_same:
  assumes "collectInputImages opts = Some opts'"
  shows "expectedMatchingLabels opts' = expectedMatchingLabels opts \<and> miniBatch opts' = miniBatch opts"
  using assms
  by (auto simp: collectInputImages_def parseInputImageList_def split: if_splits option.splits)

lemma main_loads_all:
  assumes c: "collectInputImages opts = Some opts'"
    and f: "2 \<le> length (inputImageFilenames opts')"
    and mb: "miniBatch opts = 0"
    and m: "main opts = (Exit n, evs)"
    and e: "\<forall>msg. evs \<noteq> [Errs msg]"
  shows "LoadImagesAndPreprocess (inputImageFilenames opts') \<in> set evs"
proof -
  from f have ns: "\<not> streamInputFilenamesMode (inputImageFilenames opts')"
    by (auto simp: streamInputFilenamesMode_eq)
  from main_cases [OF c] m e ns have "runDriver opts' False = (Exit n, evs)" by auto
  moreover from collectInputImages_same [OF c] mb have "miniBatch opts' = 0" by simp
  ultimately show ?thesis by (rule runDriver_loads_all)
qed

lemma main_stdin:
  assumes c: "collectInputImages opts = Some opts'"
    and f: "inputImageFilenames opts' = [''-'']"
    and m: "main opts = (Exit n, evs)"
    and e: "\<forall>msg. evs \<noteq> [Errs msg]"
  shows "GetlineStdin \<in> set evs"
proof -
  from f have s: "streamInputFilenamesMode (inputImageFilenames opts')"
    by (simp add: streamInputFilenamesMode_eq)
  from main_cases [OF c] m e s have rd: "runDriver opts' True = (Exit n, evs)" by auto
  have "\<not> miniBatchMode opts'"
  proof
    assume "miniBatchMode opts'"
    with c s have "main opts = (Exit 1, [Errs [Str argsMessage]]) \<or> main opts = (AssertionFailed, []) \<or>
       (\<exists>a b. main opts = (Exit 1, [Errs (mismatchMessage a b)]))"
      by (auto simp: main_def Let_def)
    with m e show False by auto
  qed
  with rd show ?thesis by (rule runDriver_stdin)
qed

text \<open>
  Claim C10.  The flag \<^verbatim>\<open>streamInputFilenamesMode\<close> is computed from the list of
  input filenames as \<open>main\<close> has it after reading the image list file: it is set
  exactly when that list has one element and the element is \<open>"-"\<close>.  With any other
  list, whatever \<open>main\<close> does it never reads filenames from standard input, and every
  batch it hands to the image loader is a run of consecutive filenames of the list.
  With the list \<open>["-"]\<close>, a run of \<open>main\<close> that exits after more than a lone error
  message has read standard input.  With two or more filenames and no mini-batches,
  such a run has loaded the whole list, a \<open>"-"\<close> in it included, as images.
\<close>

theorem main_streaming_mode:
  "(streamInputFilenamesMode filenames \<longleftrightarrow> length filenames = 1 \<and> hd filenames = ''-'') \<and>
   (collectInputImages opts = Some opts' \<and> inputImageFilenames opts' \<noteq> [''-''] \<longrightarrow>
      GetlineStdin \<notin> set (snd (main opts)) \<and>
      (\<forall>batch. LoadImagesAndPreprocess batch \<in> set (snd (main opts)) \<longrightarrow>
         (\<exists>i n. batch = take n (drop i (inputImageFilenames opts'))))) \<and>
   (collectInputImages opts = Some opts' \<and> inputImageFilenames opts' = [''-''] \<and>
    main opts = (Exit n, evs) \<and> (\<forall>msg. evs \<noteq> [Errs msg]) \<longrightarrow>
      GetlineStdin \<in> set evs) \<and>
   (collectInputImages opts = Some opts' \<and> 2 \<le> length (inputImageFilenames opts') \<and>
    miniBatch opts = 0 \<and> main opts = (Exit n, evs) \<and> (\<forall>msg. evs \<noteq> [Errs msg]) \<longrightarrow>
      LoadImagesAndPreprocess (inputImageFilenames opts') \<in> set evs)"
proof (intro conjI impI)
  show "streamInputFilenamesMode filenames \<longleftrightarrow> length filenames = 1 \<and> hd filenames = ''-''"
    by (cases filenames) (auto simp: streamInputFilenamesMode_def)
next
  assume a: "collectInputImages opts = Some opts' \<and> inputImageFilenames opts' \<noteq> [''-'']"
  then have "quiet (inputImageFilenames opts') (snd (main opts))" by (simp add: main_quiet)
  then show "GetlineStdin \<notin> set (snd (main opts))"
    and "\<forall>batch. LoadImagesAndPreprocess batch \<in> set (snd (main opts)) \<longrightarrow>
         (\<exists>i n. batch = take n (drop i (inputImageFilenames opts')))"
    by (simp_all add: quiet_def consecutive_def)
next
  assume "collectInputImages opts = Some opts' \<and> inputImageFilenames opts' = [''-''] \<and>
    main opts = (Exit n, evs) \<and> (\<forall>msg. evs \<noteq> [Errs msg])"
  then show "GetlineStdin \<in> set evs" using main_stdin by blast
next
  assume "collectInputImages opts = Some opts' \<and> 2 \<le> length (inputImageFilenames opts') \<and>
    miniBatch opts = 0 \<and> main opts = (Exit n, evs) \<and> (\<forall>msg. evs \<noteq> [Errs msg])"
  then show "LoadImagesAndPreprocess (inputImageFilenames opts') \<in> set evs"
    using main_loads_all by blast
qed

text \<open>
  Claim C10 on the positional list \<open>["-"]\<close>, where \<open>main\<close> reads the filenames from
  standard input, and on \<open>["-", "a.png"]\<close>, where it loads both as images.
\<close>

theorem main_streaming_mode_witness:
  "streamInputFilenamesMode [''-''] \<and>
   collectInputImages streamingOptions = Some streamingOptions \<and>
   inputImageFilenames streamingOptions = [''-''] \<and>
   fst (main streamingOptions) = Exit 0 \<and>
   GetlineStdin \<in> set (snd (main streamingOptions)) \<and>
   collectInputImages dashAmongOptions = Some dashAmongOptions \<and>
   inputImageFilenames dashAmongOptions = [''-'', ''a.png''] \<and>
   miniBatch dashAmongOptions = 0 \<and>
   fst (main dashAmongOptions) = Exit 0 \<and>
   GetlineStdin \<notin> set (snd (main dashAmongOptions)) \<and>
   LoadImagesAndPreprocess [''-'', ''a.png''] \<in> set (snd (main dashAmongOptions))"
proof -
  have c1: "collectInputImages streamingOptions = Some streamingOptions"
    by (simp add: collectInputImages_def streamingOptions_def exampleOptions_def)
  have f1: "inputImageFilenames streamingOptions = [''-'']"
    by (simp add: streamingOptions_def)
  have m1: "fst (main streamingOptions) = Exit 0" by code_simp
  have n1: "length (snd (main streamingOptions)) = 11" by code_simp
  have c2: "collectInputImages dashAmongOptions = Some dashAmongOptions"
    by (simp add: collectInputImages_def dashAmongOptions_def exampleOptions_def)
  have f2: "inputImageFilenames dashAmongOptions = [''-'', ''a.png'']"
    and b2: "miniBatch dashAmongOptions = 0"
    by (simp_all add: dashAmongOptions_def)
  have m2: "fst (main dashAmongOptions) = Exit 0" by code_simp
  have n2: "length (snd (main dashAmongOptions)) = 7" by code_simp
  have e1: "\<forall>msg. snd (main streamingOptions) \<noteq> [Errs msg]" using n1 by auto
  have e2: "\<forall>msg. snd (main dashAmongOptions) \<noteq> [Errs msg]" using n2 by auto
  have p1: "main streamingOptions = (Exit 0, snd (main streamingOptions))"
    using m1 by (cases "main streamingOptions") simp
  have p2: "main dashAmongOptions = (Exit 0, snd (main dashAmongOptions))"
    using m2 by (cases "main dashAmongOptions") simp
  from main_streaming_mode [of "[''-'']" streamingOptions streamingOptions 0
         "snd (main streamingOptions)"] c1 f1 p1 e1
  have r1: "streamInputFilenamesMode [''-'']" "GetlineStdin \<in> set (snd (main streamingOptions))"
    by simp_all
  from main_streaming_mode [of "[''-'']" dashAmongOptions dashAmongOptions 0
         "snd (main dashAmongOptions)"] c2 f2 b2 p2 e2
  have r2: "GetlineStdin \<notin> set (snd (main dashAmongOptions))"
    "LoadImagesAndPreprocess [''-'', ''a.png''] \<in> set (snd (main dashAmongOptions))"
    by simp_all
  from r1 r2 c1 f1 m1 c2 f2 b2 m2 show ?thesis by simp
qed

text \<open>
  Claim C10 as first stated speaks of the positional list.  With no positional filename
  and a list file whose only line is \<open>"-"\<close>, the positional list is not \<open>["-"]\<close>, and
  \<open>main\<close> prompts, reads standard input and loads the images named there.
\<close>

theorem main_streaming_list_file_counterexample:
  "inputImageFilenames dashListFileOptions = [] \<and>
   \<not> streamInputFilenamesMode (inputImageFilenames dashListFileOptions) \<and>
   fst (main dashListFileOptions) = Exit 0 \<and>
   take 2 (drop 3 (snd (main dashListFileOptions))) =
     [Outs [Str ''Enter image filenames to classify: ''], GetlineStdin] \<and>
   snd (main dashListFileOptions) ! 5 = LoadImagesAndPreprocess [''a.png'', ''b.png'']"
  by code_simp

end
